theory Spec2Isabelle
  imports Complex_Main "HOL-Library.Word" "HOL-Library.Monad_Syntax"
begin

section \<open>Data model\<close>

text \<open>
  The program (\<^verbatim>\<open>main.go\<close>) pads a texture: every pixel that is not fully opaque gets
  a colour derived from opaque pixels.  Two algorithms are offered:
  \<^verbatim>\<open>process_gimp_alg\<close> (iterated averaging of the 4-connected neighbours) and
  \<^verbatim>\<open>process_paint_net_alg\<close> (a jump-flood search for a near opaque pixel).

  Widths, heights, loop counters and slice indices are never negative in the program, so
  they are natural numbers here; the coordinates stored in a \<^verbatim>\<open>Point\<close> and the
  neighbour coordinates \<^verbatim>\<open>nx\<close>, \<^verbatim>\<open>ny\<close> can be negative and are integers.
  Go's \<^verbatim>\<open>int\<close> has 64 bits and \<^verbatim>\<open>float64\<close> represents every integer below
  \<open>2^53\<close> exactly; the squared distances of a raster that fits into memory stay far below
  both limits, so they are modelled by unbounded integers.
\<close>

type_synonym uint8 = "8 word"
type_synonym uint32 = "32 word"

text \<open>\<^verbatim>\<open>type Point struct { x, y int }\<close>\<close>

datatype Point = Point (pt_x: int) (pt_y: int)

text \<open>
  What \<^verbatim>\<open>color.Color.RGBA()\<close> returns: four \<^verbatim>\<open>uint32\<close> values, each in
  \<open>[0, 0xffff]\<close>.
\<close>

datatype Color16 = Color16 (c_r: uint32) (c_g: uint32) (c_b: uint32) (c_a: uint32)

text \<open>\<^verbatim>\<open>color.RGBA\<close>: four bytes.  An \<^verbatim>\<open>image.RGBA\<close> stores them at
  \<^verbatim>\<open>Pix[y*Stride + x*4 ..]\<close> with \<^verbatim>\<open>Stride = 4*width\<close>; the model keeps one
  \<open>RGBA\<close> value per pixel at index \<open>y * width + x\<close>.\<close>

datatype RGBA = RGBA (cR: uint8) (cG: uint8) (cB: uint8) (cA: uint8)

text \<open>
  The input \<^verbatim>\<open>image.Image\<close>: its bounds (with \<^verbatim>\<open>Min = (0,0)\<close>, as \<^verbatim>\<open>png.Decode\<close>
  produces them) and the composition \<^verbatim>\<open>input.At(x, y).RGBA()\<close>.
\<close>

record Image =
  Dx :: nat
  Dy :: nat
  At :: "int \<Rightarrow> int \<Rightarrow> Color16"

text \<open>\<^verbatim>\<open>color.RGBAModel.Convert\<close>, applied by \<^verbatim>\<open>(*image.RGBA).Set\<close>: the high byte of
  every channel.\<close>

definition rgbaModel :: "Color16 \<Rightarrow> RGBA" where
  "rgbaModel c = RGBA (ucast (drop_bit 8 (c_r c))) (ucast (drop_bit 8 (c_g c)))
                      (ucast (drop_bit 8 (c_b c))) (ucast (drop_bit 8 (c_a c)))"

text \<open>\<^verbatim>\<open>color.RGBA.RGBA()\<close>: every byte \<open>v\<close> becomes \<open>v | v << 8\<close>.\<close>

definition widen :: "uint8 \<Rightarrow> uint32" where
  "widen v = or (ucast v) (push_bit 8 (ucast v))"

definition RGBA_of :: "RGBA \<Rightarrow> Color16" where
  "RGBA_of c = Color16 (widen (cR c)) (widen (cG c)) (widen (cB c)) (widen (cA c))"

section \<open>Slices and loops\<close>

text \<open>
  Reading or writing a Go slice outside its length panics.  \<open>None\<close> is that panic
  (\<^verbatim>\<open>index out of range\<close>), which ends the whole program, also when it is raised in a
  goroutine.
\<close>

definition slice_get :: "'a list \<Rightarrow> nat \<Rightarrow> 'a option" where
  "slice_get xs i = (if i < length xs then Some (xs ! i) else None)"

definition slice_set :: "'a list \<Rightarrow> nat \<Rightarrow> 'a \<Rightarrow> 'a list option" where
  "slice_set xs i v = (if i < length xs then Some (xs[i := v]) else None)"

text \<open>A loop over the values \<open>is\<close> of its counters whose body may panic.  A pair of nested
  counted loops \<^verbatim>\<open>for a ... { for b ... { body } }\<close> runs through the pairs
  \<open>List.product as bs\<close>, in this order; a loop whose body cannot panic is a \<open>fold\<close>.\<close>

primrec forM :: "'i list \<Rightarrow> ('i \<Rightarrow> 's \<Rightarrow> 's option) \<Rightarrow> 's \<Rightarrow> 's option" where
  "forM [] body s = Some s"
| "forM (i # is) body s = (case body i s of None \<Rightarrow> None | Some s' \<Rightarrow> forM is body s')"

section \<open>The jump-flood engine\<close>

text \<open>The eight offsets of \<^verbatim>\<open>processJumpFlood\<close>, in the order of the source.\<close>

definition neighbours :: "int \<Rightarrow> (int \<times> int) list" where
  "neighbours step =
     [(- step, - step), (0, - step), (step, - step),
      (- step, 0), (step, 0),
      (- step, step), (0, step), (step, step)]"

text \<open>
  One iteration of the loop over \<^verbatim>\<open>neighbours\<close> for the pixel \<open>(x, y)\<close>.  The state is
  the pair of grids being written and the local \<^verbatim>\<open>bestDistance\<close>.
\<close>

definition jf_neighbour ::
  "nat \<Rightarrow> nat \<Rightarrow> Point list \<Rightarrow> nat \<Rightarrow> nat \<Rightarrow> int \<times> int \<Rightarrow>
   int list \<times> Point list \<times> int \<Rightarrow> (int list \<times> Point list \<times> int) option" where
  "jf_neighbour width height nearestCopy x y neighbour st =
     (case st of (distances, nearest, bestDistance) \<Rightarrow>
      let idx = y * width + x;
          nx = int x + fst neighbour;
          ny = int y + snd neighbour
      in if nx \<ge> 0 \<and> nx < int width \<and> ny \<ge> 0 \<and> ny < int height then
           do {
             let neighbourIdx = nat ny * width + nat nx;
             np \<leftarrow> slice_get nearestCopy neighbourIdx;
             if pt_x np \<noteq> - 1 \<and> pt_y np \<noteq> - 1 then
               let dx = int x - pt_x np;
                   dy = int y - pt_y np;
                   distance = dx * dx + dy * dy
               in if distance < bestDistance then
                    do {
                      distances' \<leftarrow> slice_set distances idx distance;
                      nearest' \<leftarrow> slice_set nearest idx np;
                      Some (distances', nearest', distance)
                    }
                  else Some st
             else Some st
           }
         else Some st)"

text \<open>The body of the loop over \<open>x\<close>: one pixel.\<close>

definition jf_pixel ::
  "nat \<Rightarrow> nat \<Rightarrow> int list \<Rightarrow> Point list \<Rightarrow> int \<Rightarrow> nat \<Rightarrow> nat \<Rightarrow>
   int list \<times> Point list \<Rightarrow> (int list \<times> Point list) option" where
  "jf_pixel width height distancesCopy nearestCopy step y x st =
     (case st of (distances, nearest) \<Rightarrow>
      do {
        bestDistance \<leftarrow> slice_get distancesCopy (y * width + x);
        r \<leftarrow> forM (neighbours step) (jf_neighbour width height nearestCopy x y)
               (distances, nearest, bestDistance);
        Some (fst r, fst (snd r))
      })"

text \<open>\<^verbatim>\<open>processJumpFlood\<close>: the rows \<open>start \<le> y < end\<close>, every \<open>x\<close> of each.  The
  two nested counted loops run through \<open>List.product [start..<end] [0..<width]\<close>, the pairs
  \<open>(y, x)\<close> in the order of the source.\<close>

definition processJumpFlood ::
  "nat \<Rightarrow> nat \<Rightarrow> int list \<Rightarrow> Point list \<Rightarrow> int list \<times> Point list \<Rightarrow> int \<Rightarrow> nat \<Rightarrow> nat \<Rightarrow>
   (int list \<times> Point list) option" where
  "processJumpFlood width height distancesCopy nearestCopy st step start end' =
     forM (List.product [start ..< end'] [0 ..< width])
       (\<lambda>(y, x). jf_pixel width height distancesCopy nearestCopy step y x) st"

text \<open>
  The row range of worker \<open>i\<close> out of \<open>numCpu\<close>: \<^verbatim>\<open>chunkSize := height / numCpu\<close>, raised to
  1 when it is 0; \<^verbatim>\<open>start := i * chunkSize\<close>, \<^verbatim>\<open>end := (i + 1) * chunkSize\<close>, and
  \<^verbatim>\<open>end = height\<close> for the last worker.
\<close>

definition chunkSize :: "nat \<Rightarrow> nat \<Rightarrow> nat" where
  "chunkSize height numCpu = (if height div numCpu = 0 then 1 else height div numCpu)"

definition chunk :: "nat \<Rightarrow> nat \<Rightarrow> nat \<Rightarrow> nat \<times> nat" where
  "chunk height numCpu i =
     (i * chunkSize height numCpu,
      if i = numCpu - 1 then height else (i + 1) * chunkSize height numCpu)"

text \<open>
  One pass of \<^verbatim>\<open>jumpFlood\<close>: both grids are copied, then one goroutine per worker runs
  \<^verbatim>\<open>processJumpFlood\<close> on its row range and the pass waits for all of them.  Every
  goroutine reads the copies only and writes the entries of its own rows only, so the
  goroutines do not interfere and the pass is the same as running them one after the other.
  A panic in any of them ends the program.
\<close>

definition jf_pass ::
  "nat \<Rightarrow> nat \<Rightarrow> nat \<Rightarrow> nat \<Rightarrow> int list \<times> Point list \<Rightarrow> (int list \<times> Point list) option" where
  "jf_pass numCpu width height step st =
     (let distancesCopy = fst st; nearestCopy = snd st
      in forM [0 ..< numCpu]
           (\<lambda>i st'. processJumpFlood width height distancesCopy nearestCopy st' (int step)
                      (fst (chunk height numCpu i)) (snd (chunk height numCpu i)))
           st)"

text \<open>
  \<^verbatim>\<open>int(math.Ceil(math.Log2(float64(n))))\<close> for the larger side \<open>n\<close> of the raster.
  \<^verbatim>\<open>math.Log2\<close> is exact on powers of two and lies strictly between two integers
  elsewhere, so the expression is the least \<open>k\<close> with \<open>n \<le> 2^k\<close> (see \<open>clog2_ceiling\<close>
  below).  For \<open>n = 0\<close> the logarithm is \<open>-Inf\<close> and the loop over the steps does not run,
  as for \<open>n = 1\<close>.
\<close>

fun clog2 :: "nat \<Rightarrow> nat" where
  "clog2 n = (if n \<le> 1 then 0 else Suc (clog2 ((n + 1) div 2)))"

declare clog2.simps [simp del]

definition maxSteps :: "nat \<Rightarrow> nat \<Rightarrow> nat" where
  "maxSteps width height = clog2 (max width height) * 2"

text \<open>The initial grids of \<^verbatim>\<open>jumpFlood\<close>: the loop over \<open>x\<close> and \<open>y\<close> that reads the
  mask and fills \<^verbatim>\<open>distances\<close> and \<^verbatim>\<open>nearest\<close>.\<close>

definition jf_init_pixel ::
  "nat \<Rightarrow> nat \<Rightarrow> bool list \<Rightarrow> nat \<Rightarrow> nat \<Rightarrow> int list \<times> Point list \<Rightarrow> (int list \<times> Point list) option" where
  "jf_init_pixel width height opaqueMask x y st =
     (case st of (distances, nearest) \<Rightarrow>
      let idx = y * width + x;
          maxDistance = int (width * width + height * height)
      in do {
        m \<leftarrow> slice_get opaqueMask idx;
        if m then
          do {
            distances' \<leftarrow> slice_set distances idx 0;
            nearest' \<leftarrow> slice_set nearest idx (Point (int x) (int y));
            Some (distances', nearest')
          }
        else
          do {
            distances' \<leftarrow> slice_set distances idx maxDistance;
            nearest' \<leftarrow> slice_set nearest idx (Point (- 1) (- 1));
            Some (distances', nearest')
          }
      })"

definition jf_init :: "nat \<Rightarrow> nat \<Rightarrow> bool list \<Rightarrow> (int list \<times> Point list) option" where
  "jf_init width height opaqueMask =
     forM (List.product [0 ..< width] [0 ..< height])
       (\<lambda>(x, y). jf_init_pixel width height opaqueMask x y)
       (replicate (width * height) 0, replicate (width * height) (Point 0 0))"

text \<open>
  The loop \<^verbatim>\<open>for step := 1; step < maxSteps; step++\<close>.  The third component of the state
  counts the completed passes; the source has no such variable, it is there to observe the
  loop.
\<close>

definition jf_step ::
  "nat \<Rightarrow> nat \<Rightarrow> nat \<Rightarrow> nat \<Rightarrow> (int list \<times> Point list) \<times> nat \<Rightarrow>
   ((int list \<times> Point list) \<times> nat) option" where
  "jf_step numCpu width height step st =
     (case jf_pass numCpu width height step (fst st) of
        None \<Rightarrow> None
      | Some g \<Rightarrow> Some (g, Suc (snd st)))"

definition jumpFlood_run ::
  "nat \<Rightarrow> nat \<Rightarrow> nat \<Rightarrow> bool list \<Rightarrow> ((int list \<times> Point list) \<times> nat) option" where
  "jumpFlood_run numCpu width height opaqueMask =
     (case jf_init width height opaqueMask of
        None \<Rightarrow> None
      | Some g \<Rightarrow> forM [1 ..< maxSteps width height] (jf_step numCpu width height) (g, 0))"

text \<open>\<^verbatim>\<open>jumpFlood\<close> returns the grid \<^verbatim>\<open>nearest\<close>.  \<open>numCpu\<close> is \<^verbatim>\<open>runtime.NumCPU()\<close>, at
  least 1.\<close>

definition jumpFlood :: "nat \<Rightarrow> nat \<Rightarrow> nat \<Rightarrow> bool list \<Rightarrow> Point list option" where
  "jumpFlood numCpu width height opaqueMask =
     map_option (\<lambda>r. snd (fst r)) (jumpFlood_run numCpu width height opaqueMask)"

section \<open>The raster operations of \<^verbatim>\<open>image.RGBA\<close>\<close>

text \<open>\<^verbatim>\<open>image.NewRGBA(bounds)\<close>: all bytes zero.\<close>

definition newRGBA :: "nat \<Rightarrow> nat \<Rightarrow> RGBA list" where
  "newRGBA width height = replicate (width * height) (RGBA 0 0 0 0)"

text \<open>\<^verbatim>\<open>(*image.RGBA).Set\<close> with a colour that is a \<^verbatim>\<open>color.RGBA\<close> already (the colour model
  leaves such a colour as it is); outside the bounds it does nothing.\<close>

definition rgba_set :: "nat \<Rightarrow> nat \<Rightarrow> RGBA list \<Rightarrow> nat \<Rightarrow> nat \<Rightarrow> RGBA \<Rightarrow> RGBA list" where
  "rgba_set width height pix x y c =
     (if x < width \<and> y < height then pix[y * width + x := c] else pix)"

text \<open>\<^verbatim>\<open>(*image.RGBA).At(x, y).RGBA()\<close>; outside the bounds \<^verbatim>\<open>At\<close> is the zero colour.\<close>

definition rgba_at :: "nat \<Rightarrow> nat \<Rightarrow> RGBA list \<Rightarrow> int \<Rightarrow> int \<Rightarrow> Color16" where
  "rgba_at width height pix x y =
     (if 0 \<le> x \<and> x < int width \<and> 0 \<le> y \<and> y < int height
      then RGBA_of (pix ! (nat y * width + nat x))
      else RGBA_of (RGBA 0 0 0 0))"

section \<open>\<^verbatim>\<open>process_paint_net_alg\<close>\<close>

text \<open>The first loop copies the input: \<^verbatim>\<open>output.Set(x, y, input.At(x, y))\<close>, \<open>y\<close> outside.\<close>

definition pn_copy :: "Image \<Rightarrow> RGBA list" where
  "pn_copy input =
     fold (\<lambda>(y, x) output.
             rgba_set (Dx input) (Dy input) output x y (rgbaModel (At input (int x) (int y))))
       (List.product [0 ..< Dy input] [0 ..< Dx input])
       (newRGBA (Dx input) (Dy input))"

text \<open>The second loop builds the mask and rewrites the opaque pixels with
  \<^verbatim>\<open>color.RGBA{uint8(r), uint8(g), uint8(b), 255}\<close>: the conversion \<^verbatim>\<open>uint8(r)\<close> keeps the
  low byte of \<open>r\<close>.\<close>

definition pn_mask_pixel ::
  "Image \<Rightarrow> nat \<times> nat \<Rightarrow> RGBA list \<times> bool list \<Rightarrow> (RGBA list \<times> bool list) option" where
  "pn_mask_pixel input xy st =
     (case xy of (x, y) \<Rightarrow> case st of (output, opaqueMask) \<Rightarrow>
      let c = At input (int x) (int y) in
      if c_a c = 0xffff then
        do {
          let output' = rgba_set (Dx input) (Dy input) output x y
                          (RGBA (ucast (c_r c)) (ucast (c_g c)) (ucast (c_b c)) 255);
          opaqueMask' \<leftarrow> slice_set opaqueMask (y * Dx input + x) True;
          Some (output', opaqueMask')
        }
      else Some st)"

definition pn_mask :: "Image \<Rightarrow> RGBA list \<Rightarrow> (RGBA list \<times> bool list) option" where
  "pn_mask input output =
     forM (List.product [0 ..< Dx input] [0 ..< Dy input]) (pn_mask_pixel input)
       (output, replicate (Dx input * Dy input) False)"

text \<open>The last loop recolours every pixel that is not opaque in the input: from the pixel
  that \<^verbatim>\<open>nearest\<close> names if both coordinates differ from \<open>-1\<close>, else with
  \<^verbatim>\<open>color.RGBA{0, 0, 0, 0}\<close>.\<close>

definition pn_fill_pixel :: "Image \<Rightarrow> Point list \<Rightarrow> nat \<times> nat \<Rightarrow> RGBA list \<Rightarrow> RGBA list option" where
  "pn_fill_pixel input nearest xy output =
     (case xy of (x, y) \<Rightarrow>
      let idx = y * Dx input + x in
      if c_a (At input (int x) (int y)) \<noteq> 0xffff then
        do {
          point \<leftarrow> slice_get nearest idx;
          if pt_x point \<noteq> - 1 \<and> pt_y point \<noteq> - 1 then
            let c = At input (pt_x point) (pt_y point) in
            Some (rgba_set (Dx input) (Dy input) output x y
                    (RGBA (ucast (drop_bit 8 (c_r c))) (ucast (drop_bit 8 (c_g c)))
                          (ucast (drop_bit 8 (c_b c))) 255))
          else Some (rgba_set (Dx input) (Dy input) output x y (RGBA 0 0 0 0))
        }
      else Some output)"

definition pn_fill :: "Image \<Rightarrow> Point list \<Rightarrow> RGBA list \<Rightarrow> RGBA list option" where
  "pn_fill input nearest output =
     forM (List.product [0 ..< Dx input] [0 ..< Dy input]) (pn_fill_pixel input nearest) output"

text \<open>The whole function.  Its result is the pixel list of the returned image; \<open>None\<close> is a
  panic.\<close>

definition process_paint_net_alg :: "nat \<Rightarrow> Image \<Rightarrow> RGBA list option" where
  "process_paint_net_alg numCpu input =
     do {
       r \<leftarrow> pn_mask input (pn_copy input);
       nearest \<leftarrow> jumpFlood numCpu (Dx input) (Dy input) (snd r);
       pn_fill input nearest (fst r)
     }"

section \<open>\<^verbatim>\<open>process_gimp_alg\<close>\<close>

text \<open>
  The state of the pass loop: the rasters \<^verbatim>\<open>rgba\<close> and \<^verbatim>\<open>output\<close> and the counters
  \<^verbatim>\<open>remaining\<close> and \<^verbatim>\<open>passes\<close>.  All indices the function uses are \<open>y * width + x\<close>
  with \<open>x < width\<close> and \<open>y < height\<close>, within the \<open>width * height\<close> pixels of the rasters,
  so this function cannot panic.
\<close>

record ia_state =
  st_rgba :: "RGBA list"
  st_output :: "RGBA list"
  st_remaining :: int
  st_passes :: int

text \<open>The four offsets, in the order of the source.\<close>

definition neighbours4 :: "(int \<times> int) list" where
  "neighbours4 = [(- 1, 0), (1, 0), (0, - 1), (0, 1)]"

text \<open>One iteration of the loop over the four neighbours: the sums \<open>r\<close>, \<open>g\<close>, \<open>b\<close> and
  \<open>count\<close> are \<^verbatim>\<open>uint32\<close>.\<close>

definition ia_neighbour ::
  "nat \<Rightarrow> nat \<Rightarrow> RGBA list \<Rightarrow> nat \<Rightarrow> nat \<Rightarrow> int \<times> int \<Rightarrow>
   uint32 \<times> uint32 \<times> uint32 \<times> uint32 \<Rightarrow> uint32 \<times> uint32 \<times> uint32 \<times> uint32" where
  "ia_neighbour width height rgba_pix x y n acc =
     (case acc of (r, g, b, count) \<Rightarrow>
      let nx = int x + fst n; ny = int y + snd n in
      if nx \<ge> 0 \<and> nx < int width \<and> ny \<ge> 0 \<and> ny < int height then
        let c = rgba_at width height rgba_pix nx ny in
        if c_a c = 0xffff then (r + c_r c, g + c_g c, b + c_b c, count + 1) else acc
      else acc)"

definition ia_gather ::
  "nat \<Rightarrow> nat \<Rightarrow> RGBA list \<Rightarrow> nat \<Rightarrow> nat \<Rightarrow> uint32 \<times> uint32 \<times> uint32 \<times> uint32" where
  "ia_gather width height rgba_pix x y =
     fold (ia_neighbour width height rgba_pix x y) neighbours4 (0, 0, 0, 0)"

text \<open>The body of the loop over \<open>x\<close>: it reads \<^verbatim>\<open>output\<close> and \<^verbatim>\<open>rgba\<close>, and writes
  \<^verbatim>\<open>tempImg\<close> and \<^verbatim>\<open>remaining\<close>.\<close>

definition ia_pixel ::
  "nat \<Rightarrow> nat \<Rightarrow> RGBA list \<Rightarrow> RGBA list \<Rightarrow> nat \<times> nat \<Rightarrow> RGBA list \<times> int \<Rightarrow> RGBA list \<times> int" where
  "ia_pixel width height rgba_pix output_pix yx st =
     (case yx of (y, x) \<Rightarrow> case st of (tempImg, remaining) \<Rightarrow>
      let pixelIdx = y * width + x;
          alpha = cA (output_pix ! pixelIdx)
      in if alpha \<noteq> 255 then
           (case ia_gather width height rgba_pix x y of (r, g, b, count) \<Rightarrow>
              if count > 0 then
                (tempImg[pixelIdx := RGBA (ucast (drop_bit 8 (r div count)))
                                          (ucast (drop_bit 8 (g div count)))
                                          (ucast (drop_bit 8 (b div count))) 255],
                 remaining - 1)
              else st)
         else st)"

text \<open>One pass: \<^verbatim>\<open>tempImg\<close> starts as a copy of \<^verbatim>\<open>output\<close>; after the loops it is copied
  to \<^verbatim>\<open>output\<close> and \<^verbatim>\<open>output\<close> to \<^verbatim>\<open>rgba\<close>.\<close>

definition ia_pass :: "nat \<Rightarrow> nat \<Rightarrow> ia_state \<Rightarrow> ia_state" where
  "ia_pass width height st =
     (let r = fold (ia_pixel width height (st_rgba st) (st_output st))
                (List.product [0 ..< height] [0 ..< width]) (st_output st, st_remaining st)
      in \<lparr> st_rgba = fst r, st_output = fst r, st_remaining = snd r, st_passes = st_passes st + 1 \<rparr>)"

text \<open>The loop \<^verbatim>\<open>for remaining > 0\<close>.  Nothing bounds the number of its passes, so it is a
  partial function: \<open>None\<close> means that the loop runs forever.\<close>

partial_function (option) ia_loop :: "nat \<Rightarrow> nat \<Rightarrow> ia_state \<Rightarrow> ia_state option" where
  "ia_loop width height st =
     (if st_remaining st > 0 then ia_loop width height (ia_pass width height st) else Some st)"

declare ia_loop.simps [code]

text \<open>The start of the function: the copy of the input into \<^verbatim>\<open>rgba\<close> (\<open>x\<close> outside), the
  copy of \<^verbatim>\<open>rgba\<close> into \<^verbatim>\<open>output\<close>, and the count of the pixels whose alpha, read back
  from \<^verbatim>\<open>rgba\<close>, is not \<open>0xffff\<close>.\<close>

definition ia_copy :: "Image \<Rightarrow> RGBA list" where
  "ia_copy input =
     fold (\<lambda>(x, y) pix.
             rgba_set (Dx input) (Dy input) pix x y (rgbaModel (At input (int x) (int y))))
       (List.product [0 ..< Dx input] [0 ..< Dy input])
       (newRGBA (Dx input) (Dy input))"

definition ia_count :: "nat \<Rightarrow> nat \<Rightarrow> RGBA list \<Rightarrow> int" where
  "ia_count width height rgba_pix =
     fold (\<lambda>(x, y) remaining.
             if c_a (rgba_at width height rgba_pix (int x) (int y)) \<noteq> 0xffff
             then remaining + 1 else remaining)
       (List.product [0 ..< width] [0 ..< height]) 0"

definition ia_start :: "Image \<Rightarrow> ia_state" where
  "ia_start input =
     (let pix = ia_copy input
      in \<lparr> st_rgba = pix, st_output = pix,
           st_remaining = ia_count (Dx input) (Dy input) pix, st_passes = 0 \<rparr>)"

definition gimp_run :: "Image \<Rightarrow> ia_state option" where
  "gimp_run input = ia_loop (Dx input) (Dy input) (ia_start input)"

text \<open>The whole function: the pixel list of the returned image, or \<open>None\<close> when the call
  never returns.\<close>

definition process_gimp_alg :: "Image \<Rightarrow> RGBA list option" where
  "process_gimp_alg input = map_option st_output (gimp_run input)"

section \<open>The jump-flood engine as a function of the snapshot\<close>

text \<open>The definitions of this section describe the loops of the source as functions of the
  grids they read; the lemmas below prove that the embedded code computes them.

  \<open>jf_scan\<close> is the body of the loop over the eight offsets in \<open>processJumpFlood\<close>, on
  the pair of the local variables \<open>minDistance\<close> and \<open>bestPoint\<close>; it has no failing
  branch, since the index it reads is checked by the bounds test before it.\<close>

definition jf_scan ::
  "nat \<Rightarrow> nat \<Rightarrow> Point list \<Rightarrow> nat \<Rightarrow> nat \<Rightarrow> int \<times> int \<Rightarrow> int \<times> Point \<Rightarrow> int \<times> Point" where
  "jf_scan width height nearestCopy x y neighbour best =
     (let nx = int x + fst neighbour; ny = int y + snd neighbour
      in if nx \<ge> 0 \<and> nx < int width \<and> ny \<ge> 0 \<and> ny < int height then
           let np = nearestCopy ! (nat ny * width + nat nx) in
           if pt_x np \<noteq> - 1 \<and> pt_y np \<noteq> - 1 then
             let distance = (int x - pt_x np) * (int x - pt_x np)
                            + (int y - pt_y np) * (int y - pt_y np)
             in if distance < fst best then (distance, np) else best
           else best
         else best)"

text \<open>The values a pass with the given step writes at the index \<open>i\<close>, from the snapshot
  \<open>g\<close> (the pair of \<open>distancesCopy\<close> and \<open>nearestCopy\<close>).\<close>

definition jf_best :: "nat \<Rightarrow> nat \<Rightarrow> nat \<Rightarrow> int list \<times> Point list \<Rightarrow> nat \<Rightarrow> int \<times> Point" where
  "jf_best width height step g i =
     fold (jf_scan width height (snd g) (i mod width) (i div width)) (neighbours (int step))
       (fst g ! i, snd g ! i)"

text \<open>The grids when the first \<open>m\<close> indices have been written, and after the whole
  pass.\<close>

definition jf_mix :: "nat \<Rightarrow> nat \<Rightarrow> nat \<Rightarrow> int list \<times> Point list \<Rightarrow> nat \<Rightarrow> int list \<times> Point list" where
  "jf_mix width height step g m =
     (map (\<lambda>i. if i < m then fst (jf_best width height step g i) else fst g ! i)
        [0 ..< width * height],
      map (\<lambda>i. if i < m then snd (jf_best width height step g i) else snd g ! i)
        [0 ..< width * height])"

definition jf_next :: "nat \<Rightarrow> nat \<Rightarrow> nat \<Rightarrow> int list \<times> Point list \<Rightarrow> int list \<times> Point list" where
  "jf_next width height step g =
     (map (\<lambda>i. fst (jf_best width height step g i)) [0 ..< width * height],
      map (\<lambda>i. snd (jf_best width height step g i)) [0 ..< width * height])"

text \<open>Writing one index of a slice with a value that depends on the index and the old
  value, and the orders in which the nested loops of the source visit the indices:
  \<open>x\<close> outside and \<open>y\<close> inside in the functions of \<open>process_paint_net_alg\<close>
  and \<open>process_gimp_alg\<close>, \<open>y\<close> outside in \<open>jumpFlood\<close>.\<close>

definition upd_at :: "(nat \<Rightarrow> 'a \<Rightarrow> 'a) \<Rightarrow> nat \<Rightarrow> 'a list \<Rightarrow> 'a list" where
  "upd_at W i s = s[i := W i (s ! i)]"

definition col_major :: "nat \<Rightarrow> nat \<Rightarrow> nat list" where
  "col_major w h = map (\<lambda>(x, y). y * w + x) (List.product [0 ..< w] [0 ..< h])"

definition row_major :: "nat \<Rightarrow> nat \<Rightarrow> nat list" where
  "row_major w h = map (\<lambda>(y, x). y * w + x) (List.product [0 ..< h] [0 ..< w])"

text \<open>The grids after the initialisation loop of \<open>jumpFlood\<close>, and after \<open>k\<close>
  passes; pass \<open>k\<close> has the step \<open>k\<close> (\<open>for step := 1; step < maxSteps; step++\<close>).\<close>

definition jf_start :: "nat \<Rightarrow> nat \<Rightarrow> bool list \<Rightarrow> int list \<times> Point list" where
  "jf_start width height opaqueMask =
     (map (\<lambda>i. if opaqueMask ! i then 0 else int (width * width + height * height))
        [0 ..< width * height],
      map (\<lambda>i. if opaqueMask ! i then Point (int (i mod width)) (int (i div width))
                else Point (- 1) (- 1))
        [0 ..< width * height])"

primrec jf_grids :: "nat \<Rightarrow> nat \<Rightarrow> bool list \<Rightarrow> nat \<Rightarrow> int list \<times> Point list" where
  "jf_grids width height opaqueMask 0 = jf_start width height opaqueMask"
| "jf_grids width height opaqueMask (Suc k) =
     jf_next width height (Suc k) (jf_grids width height opaqueMask k)"

text \<open>The pixel with index \<open>i\<close> of the input, and whether it is opaque there.\<close>

definition in_px :: "Image \<Rightarrow> nat \<Rightarrow> Color16" where
  "in_px input i = At input (int (i mod Dx input)) (int (i div Dx input))"

definition opaque_in :: "Image \<Rightarrow> nat \<Rightarrow> bool" where
  "opaque_in input i = (c_a (in_px input i) = 0xffff)"

definition mask_of :: "Image \<Rightarrow> bool list" where
  "mask_of input = map (opaque_in input) [0 ..< Dx input * Dy input]"

text \<open>The pixel with index \<open>i\<close> of the result of \<open>process_paint_net_alg\<close>, given the grid
  \<open>nearest\<close>.\<close>

definition pn_pixel :: "Image \<Rightarrow> Point list \<Rightarrow> nat \<Rightarrow> RGBA" where
  "pn_pixel input nearest i =
     (let c = in_px input i in
      if c_a c = 0xffff then RGBA (ucast (c_r c)) (ucast (c_g c)) (ucast (c_b c)) 255
      else let point = nearest ! i in
        if pt_x point \<noteq> - 1 \<and> pt_y point \<noteq> - 1 then
          let s = At input (pt_x point) (pt_y point) in
          RGBA (ucast (drop_bit 8 (c_r s))) (ucast (drop_bit 8 (c_g s)))
               (ucast (drop_bit 8 (c_b s))) 255
        else RGBA 0 0 0 0)"

section \<open>An invariant of the grids\<close>

text \<open>The coordinates of the pixel with index \<open>i\<close>, as the \<open>Point\<close> the code stores for
  an opaque pixel; \<open>near width B i j\<close> says that the pixels \<open>i\<close> and \<open>j\<close> are at most
  \<open>B\<close> columns and at most \<open>B\<close> rows apart.\<close>

definition pt_of :: "nat \<Rightarrow> nat \<Rightarrow> Point" where
  "pt_of width i = Point (int (i mod width)) (int (i div width))"

definition near :: "nat \<Rightarrow> nat \<Rightarrow> nat \<Rightarrow> nat \<Rightarrow> bool" where
  "near width B i j =
     (\<bar>int (i mod width) - int (j mod width)\<bar> \<le> int B \<and>
      \<bar>int (i div width) - int (j div width)\<bar> \<le> int B)"

text \<open>What holds of the grids throughout \<open>jumpFlood\<close>: an entry of \<open>nearest\<close> is the
  sentinel \<open>{-1, -1}\<close> or the coordinates of an opaque pixel at most \<open>B\<close> rows and
  columns away, and an opaque pixel keeps itself at distance 0.\<close>

definition jf_inv :: "nat \<Rightarrow> nat \<Rightarrow> bool list \<Rightarrow> nat \<Rightarrow> int list \<times> Point list \<Rightarrow> bool" where
  "jf_inv width height opaqueMask B g =
     (length (fst g) = width * height \<and> length (snd g) = width * height \<and>
      (\<forall>i < width * height.
         (snd g ! i = Point (- 1) (- 1) \<or>
          (\<exists>j < width * height. opaqueMask ! j \<and> snd g ! i = pt_of width j \<and> near width B i j)) \<and>
         (opaqueMask ! i \<longrightarrow> snd g ! i = pt_of width i \<and> fst g ! i = 0)))"

text \<open>The sum of the steps \<open>1, ..., k\<close>: how far a source can have travelled after
  \<open>k\<close> passes.\<close>

definition tri :: "nat \<Rightarrow> nat" where
  "tri k = k * (k + 1) div 2"

text \<open>The pass loop of \<open>jumpFlood\<close> stopped after at most \<open>k\<close> passes.\<close>

definition jumpFlood_prefix ::
  "nat \<Rightarrow> nat \<Rightarrow> nat \<Rightarrow> bool list \<Rightarrow> nat \<Rightarrow> ((int list \<times> Point list) \<times> nat) option" where
  "jumpFlood_prefix numCpu width height opaqueMask k =
     (case jf_init width height opaqueMask of
        None \<Rightarrow> None
      | Some g \<Rightarrow> forM [1 ..< Suc (min k (maxSteps width height - 1))]
                   (jf_step numCpu width height) (g, 0))"

section \<open>One pass of the averaging loop, in the words of the specification\<close>

text \<open>These definitions follow the specification's description of a pass, not the loops of
  the source; \<open>ia_pass_eq\<close> below proves that the embedded pass computes them.

  The indices of the pixels above, below, left and right of pixel \<open>i\<close> that are inside the
  raster, and the colours of those that are fully opaque in the snapshot \<open>pix\<close>.\<close>

definition nbrs4 :: "nat \<Rightarrow> nat \<Rightarrow> nat \<Rightarrow> nat list" where
  "nbrs4 width height i =
     map (\<lambda>n. nat (int (i div width) + snd n) * width + nat (int (i mod width) + fst n))
       (filter (\<lambda>n. 0 \<le> int (i mod width) + fst n \<and> int (i mod width) + fst n < int width \<and>
                     0 \<le> int (i div width) + snd n \<and> int (i div width) + snd n < int height)
          neighbours4)"

definition opaque_nbrs :: "nat \<Rightarrow> nat \<Rightarrow> RGBA list \<Rightarrow> nat \<Rightarrow> RGBA list" where
  "opaque_nbrs width height pix i = filter (\<lambda>c. cA c = 255) (map ((!) pix) (nbrs4 width height i))"

text \<open>The integer mean, by truncating division, of 16-bit channel values, reduced to 8 bits
  as \<open>uint8(v >> 8)\<close> does; the 16-bit value of an 8-bit channel \<open>v\<close> is \<open>257 * v\<close>
  (\<open>color.RGBA.RGBA\<close>).\<close>

definition mean_byte :: "nat list \<Rightarrow> uint8" where
  "mean_byte vs = of_nat ((sum_list vs div length vs) div 256)"

definition avg_colour :: "RGBA list \<Rightarrow> RGBA" where
  "avg_colour cs =
     RGBA (mean_byte (map (\<lambda>c. 257 * unat (cR c)) cs))
          (mean_byte (map (\<lambda>c. 257 * unat (cG c)) cs))
          (mean_byte (map (\<lambda>c. 257 * unat (cB c)) cs)) 255"

text \<open>A pass fills the pixels that are not opaque and have an opaque neighbour in the
  snapshot, all from the same snapshot.\<close>

definition ia_fills :: "nat \<Rightarrow> nat \<Rightarrow> RGBA list \<Rightarrow> RGBA list \<Rightarrow> nat \<Rightarrow> bool" where
  "ia_fills width height pix out i = (cA (out ! i) \<noteq> 255 \<and> opaque_nbrs width height pix i \<noteq> [])"

definition ia_next :: "nat \<Rightarrow> nat \<Rightarrow> RGBA list \<Rightarrow> RGBA list \<Rightarrow> RGBA list" where
  "ia_next width height pix out =
     map (\<lambda>i. if ia_fills width height pix out i
               then avg_colour (opaque_nbrs width height pix i) else out ! i)
       [0 ..< width * height]"

section \<open>The number of passes of the averaging loop\<close>

text \<open>Opacity in the 8-bit working copy, the distance between two coordinates, and the
  4-connected (Manhattan) distance between two pixels given by index.\<close>

definition opq :: "RGBA list \<Rightarrow> nat \<Rightarrow> bool" where
  "opq pix i = (cA (pix ! i) = 255)"

definition gap :: "nat \<Rightarrow> nat \<Rightarrow> nat" where
  "gap a b = (a - b) + (b - a)"

definition manh :: "nat \<Rightarrow> nat \<Rightarrow> nat \<Rightarrow> nat" where
  "manh width i j = gap (i mod width) (j mod width) + gap (i div width) (j div width)"

text \<open>The raster after \<open>k\<close> passes, and the state of the loop then: \<open>remaining\<close> is the
  number of pixels that are not opaque yet.\<close>

primrec ia_iter :: "nat \<Rightarrow> nat \<Rightarrow> RGBA list \<Rightarrow> nat \<Rightarrow> RGBA list" where
  "ia_iter width height pix 0 = pix"
| "ia_iter width height pix (Suc k) =
     ia_next width height (ia_iter width height pix k) (ia_iter width height pix k)"

definition ia_state_at :: "nat \<Rightarrow> nat \<Rightarrow> RGBA list \<Rightarrow> nat \<Rightarrow> ia_state" where
  "ia_state_at width height pix k =
     \<lparr> st_rgba = ia_iter width height pix k, st_output = ia_iter width height pix k,
       st_remaining = int (card {i. i < width * height \<and> \<not> opq (ia_iter width height pix k) i}),
       st_passes = int k \<rparr>"

text \<open>In the words of the specification: the distance from a pixel to the nearest opaque
  pixel, and the largest such distance over the transparent pixels (0 when there is
  none).\<close>

definition dist4 :: "nat \<Rightarrow> nat \<Rightarrow> bool list \<Rightarrow> nat \<Rightarrow> nat" where
  "dist4 width height opaque i =
     Min (set (map (manh width i) (filter (\<lambda>j. opaque ! j) [0 ..< width * height])))"

definition depth4 :: "nat \<Rightarrow> nat \<Rightarrow> bool list \<Rightarrow> nat" where
  "depth4 width height opaque =
     Max (set (0 # map (dist4 width height opaque)
                       (filter (\<lambda>i. \<not> opaque ! i) [0 ..< width * height])))"

section \<open>Candidates that name a real source\<close>

text \<open>The squared distance the code computes between the pixel \<open>(x, y)\<close> and a stored
  source coordinate (\<open>dx*dx + dy*dy\<close> in \<open>processJumpFlood\<close>).\<close>

definition sqd :: "nat \<Rightarrow> nat \<Rightarrow> Point \<Rightarrow> int" where
  "sqd x y q = (int x - pt_x q) * (int x - pt_x q) + (int y - pt_y q) * (int y - pt_y q)"

text \<open>An entry of the two grids is good for the pixel \<open>i\<close> when it names an opaque pixel of
  the raster together with the squared distance to it; it is close when that distance is
  at most two, that is, when the source is one of the eight pixels around \<open>i\<close>.\<close>

definition jf_good :: "nat \<Rightarrow> nat \<Rightarrow> bool list \<Rightarrow> nat \<Rightarrow> int \<times> Point \<Rightarrow> bool" where
  "jf_good width height opaqueMask i b =
     (\<exists>j < width * height. opaqueMask ! j \<and> snd b = pt_of width j \<and>
        fst b = sqd (i mod width) (i div width) (pt_of width j))"

definition jf_close :: "nat \<Rightarrow> nat \<Rightarrow> bool list \<Rightarrow> nat \<Rightarrow> int list \<times> Point list \<Rightarrow> bool" where
  "jf_close width height opaqueMask i g =
     (jf_good width height opaqueMask i (fst g ! i, snd g ! i) \<and> fst g ! i \<le> 2)"

section \<open>Example rasters\<close>

text \<open>One pixel of a PNG with 16 bits per channel: opaque, red \<open>0x1234\<close>.\<close>

definition deep_pixel :: Image where
  "deep_pixel = \<lparr> Dx = 1, Dy = 1, At = (\<lambda>x y. Color16 0x1234 0 0 0xffff) \<rparr>"

text \<open>One fully transparent pixel, and the state of the pass loop it leads to.\<close>

definition clear_pixel :: Image where
  "clear_pixel = \<lparr> Dx = 1, Dy = 1, At = (\<lambda>x y. Color16 0 0 0 0) \<rparr>"

definition clear_state :: "int \<Rightarrow> ia_state" where
  "clear_state p =
     \<lparr> st_rgba = [RGBA 0 0 0 0], st_output = [RGBA 0 0 0 0], st_remaining = 1, st_passes = p \<rparr>"

text \<open>A column of 93 pixels, the first opaque and white, all others transparent.\<close>

definition strip :: Image where
  "strip = \<lparr> Dx = 1, Dy = 93,
             At = (\<lambda>x y. if y = 0 then Color16 0xffff 0xffff 0xffff 0xffff else Color16 0 0 0 0) \<rparr>"

text \<open>Two pixels side by side: opaque red and transparent.\<close>

definition pair_px :: Image where
  "pair_px = \<lparr> Dx = 2, Dy = 1,
             At = (\<lambda>x y. if x = 0 then Color16 0xffff 0 0 0xffff else Color16 0 0 0 0) \<rparr>"

text \<open>Three by three pixels: the centre transparent, the pixels beside, above and below it
  red, the corners blue.\<close>

definition red3 :: Image where
  "red3 = \<lparr> Dx = 3, Dy = 3,
            At = (\<lambda>x y. if x = 1 \<and> y = 1 then Color16 0 0 0 0
                        else if x = 1 \<or> y = 1 then Color16 0xffff 0 0 0xffff
                        else Color16 0 0 0xffff 0xffff) \<rparr>"

text \<open>Two pixels of a PNG with 16 bits per channel: an opaque one and one of alpha
  \<open>0xff80\<close>.\<close>

definition near_opaque :: Image where
  "near_opaque = \<lparr> Dx = 2, Dy = 1,
       At = (\<lambda>x y. if x = 0 then Color16 0xffff 0xffff 0xffff 0xffff
                   else Color16 0 0 0 0xff80) \<rparr>"

text \<open>A row of three pixels, the first opaque red, the others transparent.\<close>

definition row3 :: Image where
  "row3 = \<lparr> Dx = 3, Dy = 1,
       At = (\<lambda>x y. if x = 0 then Color16 0xffff 0 0 0xffff else Color16 0 0 0 0) \<rparr>"

text \<open>Three by three pixels of a PNG with 16 bits per channel: the centre fully transparent,
  the eight others opaque and of one colour.\<close>

definition dot3 :: Image where
  "dot3 = \<lparr> Dx = 3, Dy = 3,
            At = (\<lambda>x y. if x = 1 \<and> y = 1 then Color16 0 0 0 0
                        else Color16 0x1111 0x8080 0xffff 0xffff) \<rparr>"

text \<open>Three by three pixels of a PNG with 16 bits per channel: the centre green with alpha
  \<open>0xff80\<close>, the eight others opaque red.\<close>

definition dim3 :: Image where
  "dim3 = \<lparr> Dx = 3, Dy = 3,
            At = (\<lambda>x y. if x = 1 \<and> y = 1 then Color16 0 0xff80 0 0xff80
                        else Color16 0xffff 0 0 0xffff) \<rparr>"

section \<open>Loops and indices\<close>

subsection \<open>Loops\<close>

text \<open>Loops over a concatenation, over the image of a list, over a product and over a
  range of numbers.\<close>

lemma forM_append:
  "forM (xs @ ys) body s = (case forM xs body s of None \<Rightarrow> None | Some s' \<Rightarrow> forM ys body s')"
  by (induction xs arbitrary: s) (auto split: option.splits)

lemma forM_map: "forM (map g xs) body s = forM xs (\<lambda>x. body (g x)) s"
  by (induction xs arbitrary: s) (auto split: option.splits)

lemma forM_product:
  "forM (List.product as bs) body s = forM as (\<lambda>a. forM bs (\<lambda>b. body (a, b))) s"
  by (induction as arbitrary: s) (auto simp: forM_append forM_map split: option.splits)

lemma fold_product:
  "fold f (List.product as bs) s = fold (\<lambda>a. fold (\<lambda>b. f (a, b)) bs) as s"
  by (induction as arbitrary: s) (auto simp: fold_map comp_def)

lemma forM_upt_chain:
  assumes "a \<le> b" and "\<And>i. a \<le> i \<Longrightarrow> i < b \<Longrightarrow> body i (G i) = Some (G (Suc i))"
  shows "forM [a ..< b] body (G a) = Some (G b)"
  using assms
proof (induction b)
  case 0
  then show ?case by simp
next
  case (Suc b)
  show ?case
  proof (cases "a = Suc b")
    case True
    then show ?thesis by simp
  next
    case False
    with Suc.prems have le: "a \<le> b" by simp
    have "forM [a ..< b] body (G a) = Some (G b)"
      using Suc.IH[OF le] Suc.prems(2) by simp
    moreover have "body b (G b) = Some (G (Suc b))"
      using Suc.prems(2)[of b] le by simp
    ultimately show ?thesis using le by (simp add: forM_append)
  qed
qed

lemma forM_None:
  "forM xs body s = Some s' \<Longrightarrow> body x s' = None \<Longrightarrow> forM (xs @ x # ys) body s = None"
  by (simp add: forM_append)

lemma forM_fold:
  assumes "P s" and "\<And>k s. k \<in> set ks \<Longrightarrow> P s \<Longrightarrow> body k s = Some (f k s) \<and> P (f k s)"
  shows "forM ks body s = Some (fold f ks s) \<and> P (fold f ks s)"
  using assms by (induction ks arbitrary: s) auto

subsection \<open>Indices\<close>

text \<open>The index \<open>y * w + x\<close> of a pixel and its coordinates.\<close>

lemma idx_less: "x < w \<Longrightarrow> y < h \<Longrightarrow> y * w + x < w * (h::nat)"
proof -
  assume a: "x < w" "y < h"
  have "y * w + x < y * w + w" using a by simp
  also have "\<dots> = Suc y * w" by simp
  also have "\<dots> \<le> h * w" using a by (intro mult_le_mono1) simp
  finally show ?thesis by (simp add: mult.commute)
qed

lemma idx_mod: "x < w \<Longrightarrow> (y * w + x) mod w = (x::nat)"
  by simp

lemma idx_div: "x < w \<Longrightarrow> (y * w + x) div w = (y::nat)"
  by simp

lemma nbr_idx_less:
  "0 \<le> nx \<Longrightarrow> nx < int w \<Longrightarrow> 0 \<le> ny \<Longrightarrow> ny < int h \<Longrightarrow> nat ny * w + nat nx < w * h"
  by (rule idx_less) auto

text \<open>The loop over the eight offsets never fails and computes \<open>jf_scan\<close>.\<close>

lemma jf_neighbour_scan:
  assumes "x < w" "y < h" "w * h \<le> length nc" "y * w + x < length d" "y * w + x < length n"
  shows "jf_neighbour w h nc x y nb (d, n, d ! (y * w + x)) =
         Some (d[y * w + x := fst (jf_scan w h nc x y nb (d ! (y * w + x), n ! (y * w + x)))],
               n[y * w + x := snd (jf_scan w h nc x y nb (d ! (y * w + x), n ! (y * w + x)))],
               fst (jf_scan w h nc x y nb (d ! (y * w + x), n ! (y * w + x))))"
proof -
  have inb: "0 \<le> int x + fst nb \<Longrightarrow> int x + fst nb < int w \<Longrightarrow> 0 \<le> int y + snd nb \<Longrightarrow>
        int y + snd nb < int h \<Longrightarrow> nat (int y + snd nb) * w + nat (int x + fst nb) < length nc"
    using nbr_idx_less[of "int x + fst nb" w "int y + snd nb" h] assms(3) by linarith
  show ?thesis
    using assms(4,5) inb
    by (simp add: jf_neighbour_def jf_scan_def slice_get_def slice_set_def Let_def)
qed

lemma jf_neighbours_fold:
  assumes "x < w" "y < h" "w * h \<le> length nc" "y * w + x < length d" "y * w + x < length n"
  shows "forM nbs (jf_neighbour w h nc x y) (d, n, d ! (y * w + x)) =
         Some (d[y * w + x := fst (fold (jf_scan w h nc x y) nbs (d ! (y * w + x), n ! (y * w + x)))],
               n[y * w + x := snd (fold (jf_scan w h nc x y) nbs (d ! (y * w + x), n ! (y * w + x)))],
               fst (fold (jf_scan w h nc x y) nbs (d ! (y * w + x), n ! (y * w + x))))"
  using assms(4,5)
proof (induction nbs arbitrary: d n)
  case Nil
  then show ?case by simp
next
  case (Cons nb nbs)
  let ?i = "y * w + x"
  let ?r = "jf_scan w h nc x y nb (d ! ?i, n ! ?i)"
  let ?d = "d[?i := fst ?r]" and ?n = "n[?i := snd ?r]"
  have step: "jf_neighbour w h nc x y nb (d, n, d ! ?i) = Some (?d, ?n, fst ?r)"
    using jf_neighbour_scan[OF assms(1-3) Cons.prems] .
  have len: "?i < length ?d" "?i < length ?n" using Cons.prems by simp_all
  have nth: "?d ! ?i = fst ?r" "?n ! ?i = snd ?r" using Cons.prems by simp_all
  have "forM nbs (jf_neighbour w h nc x y) (?d, ?n, ?d ! ?i) =
        Some (?d[?i := fst (fold (jf_scan w h nc x y) nbs (?d ! ?i, ?n ! ?i))],
              ?n[?i := snd (fold (jf_scan w h nc x y) nbs (?d ! ?i, ?n ! ?i))],
              fst (fold (jf_scan w h nc x y) nbs (?d ! ?i, ?n ! ?i)))"
    by (rule Cons.IH[OF len])
  then show ?case using step nth by simp
qed

lemma length_jf_mix [simp]:
  "length (fst (jf_mix w h step g m)) = w * h" "length (snd (jf_mix w h step g m)) = w * h"
  by (simp_all add: jf_mix_def)

lemma nth_jf_mix:
  "i < w * h \<Longrightarrow> fst (jf_mix w h step g m) ! i = (if i < m then fst (jf_best w h step g i) else fst g ! i)"
  "i < w * h \<Longrightarrow> snd (jf_mix w h step g m) ! i = (if i < m then snd (jf_best w h step g i) else snd g ! i)"
  by (simp_all add: jf_mix_def)

lemma jf_mix_0: "length (fst g) = w * h \<Longrightarrow> length (snd g) = w * h \<Longrightarrow> jf_mix w h step g 0 = g"
proof -
  assume a: "length (fst g) = w * h" "length (snd g) = w * h"
  have "map ((!) (fst g)) [0 ..< length (fst g)] = fst g" "map ((!) (snd g)) [0 ..< length (snd g)] = snd g"
    by (rule map_nth)+
  then show ?thesis using a by (simp add: jf_mix_def prod_eq_iff)
qed

lemma jf_mix_all: "w * h \<le> m \<Longrightarrow> jf_mix w h step g m = jf_next w h step g"
  by (simp add: jf_mix_def jf_next_def)

lemma jf_mix_Suc:
  assumes "i < w * h"
  shows "jf_mix w h step g (Suc i) =
         ((fst (jf_mix w h step g i))[i := fst (jf_best w h step g i)],
          (snd (jf_mix w h step g i))[i := snd (jf_best w h step g i)])"
proof -
  have "fst (jf_mix w h step g (Suc i)) = (fst (jf_mix w h step g i))[i := fst (jf_best w h step g i)]"
    by (rule nth_equalityI) (auto simp: nth_jf_mix nth_list_update less_Suc_eq)
  moreover
  have "snd (jf_mix w h step g (Suc i)) = (snd (jf_mix w h step g i))[i := snd (jf_best w h step g i)]"
    by (rule nth_equalityI) (auto simp: nth_jf_mix nth_list_update less_Suc_eq)
  ultimately show ?thesis by (simp add: prod_eq_iff)
qed

text \<open>A pixel, a row and a range of rows of a pass: each writes the next indices of the
  new grids from the snapshot.\<close>

lemma jf_pixel_mix:
  assumes "x < w" "y < h" "length (fst g) = w * h" "length (snd g) = w * h"
  shows "jf_pixel w h (fst g) (snd g) (int step) y x (jf_mix w h step g (y * w + x)) =
         Some (jf_mix w h step g (Suc (y * w + x)))"
proof -
  let ?i = "y * w + x"
  let ?m = "jf_mix w h step g ?i"
  have i: "?i < w * h" using assms(1,2) by (rule idx_less)
  have nth: "fst ?m ! ?i = fst g ! ?i" "snd ?m ! ?i = snd g ! ?i"
    using i by (simp_all add: nth_jf_mix)
  have fold: "forM (neighbours (int step)) (jf_neighbour w h (snd g) x y) (fst ?m, snd ?m, fst ?m ! ?i) =
        Some ((fst ?m)[?i := fst (fold (jf_scan w h (snd g) x y) (neighbours (int step)) (fst ?m ! ?i, snd ?m ! ?i))],
              (snd ?m)[?i := snd (fold (jf_scan w h (snd g) x y) (neighbours (int step)) (fst ?m ! ?i, snd ?m ! ?i))],
              fst (fold (jf_scan w h (snd g) x y) (neighbours (int step)) (fst ?m ! ?i, snd ?m ! ?i)))"
    by (rule jf_neighbours_fold) (use assms i in simp_all)
  have best: "fold (jf_scan w h (snd g) x y) (neighbours (int step)) (fst g ! ?i, snd g ! ?i)
              = jf_best w h step g ?i"
    using assms(1) by (simp add: jf_best_def)
  have "jf_pixel w h (fst g) (snd g) (int step) y x (fst ?m, snd ?m) =
        Some ((fst ?m)[?i := fst (jf_best w h step g ?i)], (snd ?m)[?i := snd (jf_best w h step g ?i)])"
    using fold i assms(3) unfolding nth best
    by (simp add: jf_pixel_def slice_get_def case_prod_beta)
  then show ?thesis using jf_mix_Suc[OF i, of step g] by simp
qed

lemma jf_row_mix:
  assumes "y < h" "length (fst g) = w * h" "length (snd g) = w * h"
  shows "forM [0 ..< w] (\<lambda>x. jf_pixel w h (fst g) (snd g) (int step) y x) (jf_mix w h step g (y * w))
         = Some (jf_mix w h step g (Suc y * w))"
proof -
  have "forM [0 ..< w] (\<lambda>x. jf_pixel w h (fst g) (snd g) (int step) y x)
          (jf_mix w h step g (y * w + 0)) = Some (jf_mix w h step g (y * w + w))"
    by (rule forM_upt_chain[where G = "\<lambda>x. jf_mix w h step g (y * w + x)"])
       (use assms jf_pixel_mix in simp_all)
  then show ?thesis by (simp add: add.commute)
qed

lemma processJumpFlood_mix:
  assumes "s \<le> e" "e \<le> h" "length (fst g) = w * h" "length (snd g) = w * h"
  shows "processJumpFlood w h (fst g) (snd g) (jf_mix w h step g (s * w)) (int step) s e
         = Some (jf_mix w h step g (e * w))"
  unfolding processJumpFlood_def forM_product
  by (rule forM_upt_chain[where G = "\<lambda>y. jf_mix w h step g (y * w)"])
     (use assms jf_row_mix in simp_all)

text \<open>A range of rows that starts below the height panics at its first pixel.\<close>

lemma processJumpFlood_panic:
  assumes "0 < w" "h \<le> s" "s < e" "length (fst g) = w * h"
  shows "processJumpFlood w h (fst g) (snd g) st step s e = None"
proof -
  have "\<not> s * w + 0 < length (fst g)" using assms(2,4) by (simp add: mult.commute)
  then have "slice_get (fst g) (s * w + 0) = None"
    unfolding slice_get_def by (rule if_not_P)
  then have px: "jf_pixel w h (fst g) (snd g) step s 0 st = None"
    by (simp add: jf_pixel_def case_prod_beta)
  have "[s ..< e] = s # [Suc s ..< e]" using assms(3) by (simp add: upt_conv_Cons)
  moreover have "[0 ..< w] = 0 # [1 ..< w]" using assms(1) by (simp add: upt_conv_Cons)
  ultimately have "List.product [s ..< e] [0 ..< w] =
      (s, 0) # (map (Pair s) [1 ..< w] @ List.product [Suc s ..< e] [0 ..< w])"
    by simp
  then show ?thesis using px by (simp add: processJumpFlood_def)
qed

text \<open>With at most \<open>height + 1\<close> workers every range of rows ends at the height or before,
  and a pass computes \<open>jf_next\<close>; with more workers and a raster that is not empty a pass
  panics.\<close>

lemma chunk_bound:
  assumes "numCpu \<le> Suc h" "j < numCpu"
  shows "j * chunkSize h numCpu \<le> h"
proof (cases "h div numCpu = 0")
  case True
  have "0 < numCpu" using assms(2) by simp
  with True have "h < numCpu" by (simp add: div_eq_0_iff)
  with assms show ?thesis using True by (simp add: chunkSize_def)
next
  case False
  have "j * (h div numCpu) \<le> numCpu * (h div numCpu)"
    using assms(2) by (intro mult_le_mono1) simp
  also have "\<dots> \<le> h" by simp
  finally show ?thesis using False by (simp add: chunkSize_def)
qed

lemma jf_pass_ok:
  assumes "0 < numCpu" "numCpu \<le> Suc h" "length (fst g) = w * h" "length (snd g) = w * h"
  shows "jf_pass numCpu w h step g = Some (jf_next w h step g)"
proof -
  define cs where "cs = chunkSize h numCpu"
  define G where "G i = jf_mix w h step g ((if i = numCpu then h else i * cs) * w)" for i
  have body: "processJumpFlood w h (fst g) (snd g) (G i) (int step)
                (fst (chunk h numCpu i)) (snd (chunk h numCpu i)) = Some (G (Suc i))"
    if i: "i < numCpu" for i
  proof -
    have s: "fst (chunk h numCpu i) = i * cs" by (simp add: chunk_def cs_def)
    have e: "snd (chunk h numCpu i) = (if Suc i = numCpu then h else Suc i * cs)"
      using i by (auto simp: chunk_def cs_def)
    have sh: "i * cs \<le> h" unfolding cs_def using assms(2) i by (rule chunk_bound)
    have eh: "snd (chunk h numCpu i) \<le> h"
      unfolding e cs_def using chunk_bound[OF assms(2), of "Suc i"] i by auto
    have se: "i * cs \<le> snd (chunk h numCpu i)" unfolding e using sh by simp
    have Gi: "G i = jf_mix w h step g (i * cs * w)" using i by (simp add: G_def)
    have GS: "G (Suc i) = jf_mix w h step g (snd (chunk h numCpu i) * w)"
      unfolding e by (simp add: G_def)
    show ?thesis
      unfolding s Gi GS by (rule processJumpFlood_mix[OF se eh assms(3,4)])
  qed
  have "forM [0 ..< numCpu]
          (\<lambda>i st'. processJumpFlood w h (fst g) (snd g) st' (int step)
                     (fst (chunk h numCpu i)) (snd (chunk h numCpu i))) (G 0) = Some (G numCpu)"
    by (rule forM_upt_chain) (use body in simp_all)
  moreover have "G 0 = g" using assms(1,3,4) by (simp add: G_def jf_mix_0)
  moreover have "G numCpu = jf_next w h step g"
    by (simp add: G_def jf_mix_all mult.commute)
  ultimately show ?thesis by (simp add: jf_pass_def Let_def)
qed

lemma jf_pass_panic:
  assumes "0 < w" "Suc h < numCpu" "length (fst g) = w * h" "length (snd g) = w * h"
  shows "jf_pass numCpu w h step g = None"
proof -
  let ?body = "\<lambda>i st'. processJumpFlood w h (fst g) (snd g) st' (int step)
                     (fst (chunk h numCpu i)) (snd (chunk h numCpu i))"
  have cs: "chunkSize h numCpu = 1" using assms(2) by (simp add: chunkSize_def)
  have ch: "chunk h numCpu i = (i, Suc i)" if "i \<le> h" for i
    using that assms(2) by (auto simp: chunk_def cs)
  have "forM [0 ..< h] ?body (jf_mix w h step g (0 * w)) = Some (jf_mix w h step g (h * w))"
  proof (rule forM_upt_chain[where G = "\<lambda>i. jf_mix w h step g (i * w)"])
    fix i assume "0 \<le> i" "i < h"
    then show "?body i (jf_mix w h step g (i * w)) = Some (jf_mix w h step g (Suc i * w))"
      using processJumpFlood_mix[of i "Suc i" h g w step] assms(3,4) by (simp add: ch)
  qed simp
  then have first: "forM [0 ..< h] ?body g = Some (jf_mix w h step g (h * w))"
    using assms(3,4) by (simp add: jf_mix_0)
  have "?body h (jf_mix w h step g (h * w)) = None"
    using processJumpFlood_panic[OF assms(1) _ _ assms(3), of h "Suc h"] by (simp add: ch)
  with first have "forM ([0 ..< h] @ h # [Suc h ..< numCpu]) ?body g = None"
    by (rule forM_None)
  moreover have "[0 ..< numCpu] = [0 ..< h] @ h # [Suc h ..< numCpu]"
    using assms(2) by (metis Suc_lessD le0 upt_add_eq_append upt_conv_Cons le_add_diff_inverse less_imp_le)
  ultimately show ?thesis by (simp add: jf_pass_def Let_def)
qed

text \<open>Writing every index of a list once, in any order.\<close>

lemma length_fold_upd_at [simp]: "length (fold (upd_at W) is s) = length s"
  by (induction "is" arbitrary: s) (simp_all add: upd_at_def)

lemma nth_fold_upd_at:
  "distinct is \<Longrightarrow> i < length s \<Longrightarrow>
   fold (upd_at W) is s ! i = (if i \<in> set is then W i (s ! i) else s ! i)"
proof (induction "is" arbitrary: s)
  case Nil
  then show ?case by simp
next
  case (Cons j js)
  have "fold (upd_at W) (j # js) s ! i = fold (upd_at W) js (upd_at W j s) ! i" by simp
  also have "\<dots> = (if i \<in> set js then W i (upd_at W j s ! i) else upd_at W j s ! i)"
    using Cons.prems by (intro Cons.IH) (simp_all add: upd_at_def)
  also have "\<dots> = (if i \<in> set (j # js) then W i (s ! i) else s ! i)"
  proof (cases "i = j")
    case True
    then show ?thesis using Cons.prems by (simp add: upd_at_def)
  next
    case False
    then show ?thesis by (simp add: upd_at_def)
  qed
  finally show ?case .
qed

lemma fold_upd_at_all:
  assumes "distinct is" "set is = {0 ..< length s}"
  shows "fold (upd_at W) is s = map (\<lambda>i. W i (s ! i)) [0 ..< length s]"
  by (rule nth_equalityI) (simp_all add: nth_fold_upd_at assms)

lemma fold_upd_pair:
  "fold (\<lambda>i s. (upd_at Wa i (fst s), upd_at Wb i (snd s))) is s =
   (fold (upd_at Wa) is (fst s), fold (upd_at Wb) is (snd s))"
  by (induction "is" arbitrary: s) simp_all

lemma idx_inj:
  assumes "x < w" "x' < w" "y * w + x = y' * w + (x'::nat)"
  shows "x = x' \<and> y = y'"
proof -
  have "(y * w + x) mod w = (y' * w + x') mod w" "(y * w + x) div w = (y' * w + x') div w"
    using assms(3) by simp_all
  then show ?thesis using assms(1,2) by simp
qed

lemma idx_image: "(\<lambda>(x, y). y * w + x) ` ({0 ..< w} \<times> {0 ..< h}) = {0 ..< w * (h::nat)}"
proof (intro equalityI subsetI)
  fix i assume "i \<in> (\<lambda>(x, y). y * w + x) ` ({0 ..< w} \<times> {0 ..< h})"
  then show "i \<in> {0 ..< w * h}" by (auto simp: idx_less)
next
  fix i assume "i \<in> {0 ..< w * h}"
  then have i: "i < w * h" by simp
  then have "0 < w" by (cases w) simp_all
  then have "i mod w < w" by simp
  moreover have "i div w < h" using i by (simp add: less_mult_imp_div_less mult.commute)
  moreover have "i = (i div w) * w + i mod w" by simp
  ultimately show "i \<in> (\<lambda>(x, y). y * w + x) ` ({0 ..< w} \<times> {0 ..< h})"
    by (intro image_eqI[where x = "(i mod w, i div w)"]) auto
qed

lemma distinct_col_major: "distinct (col_major w h)"
  unfolding col_major_def
  by (auto simp: distinct_map distinct_product inj_on_def dest: idx_inj)

lemma set_col_major: "set (col_major w h) = {0 ..< w * h}"
  unfolding col_major_def using idx_image[of w h] by simp

lemma distinct_row_major: "distinct (row_major w h)"
  unfolding row_major_def
  by (auto simp: distinct_map distinct_product inj_on_def dest: idx_inj)

lemma set_row_major: "set (row_major w h) = {0 ..< w * h}"
proof -
  have "(\<lambda>(y, x). y * w + x) ` ({0 ..< h} \<times> {0 ..< w}) = (\<lambda>(x, y). y * w + x) ` ({0 ..< w} \<times> {0 ..< h})"
    by (auto simp: image_iff)
  then show ?thesis unfolding row_major_def using idx_image[of w h] by simp
qed

text \<open>A loop whose body at the key \<open>k\<close> is the update \<open>f (ix k)\<close>.\<close>

lemma forM_fold_map:
  assumes "P s"
    and "\<And>k s. k \<in> set ks \<Longrightarrow> P s \<Longrightarrow> body k s = Some (f (ix k) s) \<and> P (f (ix k) s)"
  shows "forM ks body s = Some (fold f (map ix ks) s)"
  using assms by (induction ks arbitrary: s) auto

lemma fold_fold_map:
  assumes "P s"
    and "\<And>k s. k \<in> set ks \<Longrightarrow> P s \<Longrightarrow> body k s = f (ix k) s \<and> P (f (ix k) s)"
  shows "fold body ks s = fold f (map ix ks) s"
  using assms by (induction ks arbitrary: s) auto

lemma fold_col_major:
  "length s = w * h \<Longrightarrow> fold (upd_at W) (col_major w h) s = map (\<lambda>i. W i (s ! i)) [0 ..< w * h]"
  using fold_upd_at_all[of "col_major w h" s W] by (simp add: distinct_col_major set_col_major)

lemma fold_row_major:
  "length s = w * h \<Longrightarrow> fold (upd_at W) (row_major w h) s = map (\<lambda>i. W i (s ! i)) [0 ..< w * h]"
  using fold_upd_at_all[of "row_major w h" s W] by (simp add: distinct_row_major set_row_major)

lemma forM_col_major_pair:
  assumes "length (fst s) = w * h" "length (snd s) = w * h"
    and "\<And>x y s. x < w \<Longrightarrow> y < h \<Longrightarrow> length (fst s) = w * h \<Longrightarrow> length (snd s) = w * h \<Longrightarrow>
           body (x, y) s = Some (upd_at Wa (y * w + x) (fst s), upd_at Wb (y * w + x) (snd s))"
  shows "forM (List.product [0 ..< w] [0 ..< h]) body s =
         Some (map (\<lambda>i. Wa i (fst s ! i)) [0 ..< w * h], map (\<lambda>i. Wb i (snd s ! i)) [0 ..< w * h])"
proof -
  let ?f = "\<lambda>i s. (upd_at Wa i (fst s), upd_at Wb i (snd s))"
  have "forM (List.product [0 ..< w] [0 ..< h]) body s =
        Some (fold ?f (map (\<lambda>(x, y). y * w + x) (List.product [0 ..< w] [0 ..< h])) s)"
  proof (rule forM_fold_map[where P = "\<lambda>s. length (fst s) = w * h \<and> length (snd s) = w * h"])
    show "length (fst s) = w * h \<and> length (snd s) = w * h" using assms(1,2) by simp
  next
    fix k and t :: "'a list \<times> 'b list"
    assume k: "k \<in> set (List.product [0 ..< w] [0 ..< h])"
      and P: "length (fst t) = w * h \<and> length (snd t) = w * h"
    obtain x y where xy: "k = (x, y)" by (cases k)
    with k have "x < w" "y < h" by simp_all
    then have "body (x, y) t = Some (?f (y * w + x) t)" using assms(3) P by simp
    then show "body k t = Some (?f (case k of (x, y) \<Rightarrow> y * w + x) t) \<and>
         (length (fst (?f (case k of (x, y) \<Rightarrow> y * w + x) t)) = w * h \<and>
          length (snd (?f (case k of (x, y) \<Rightarrow> y * w + x) t)) = w * h)"
      using P xy by (simp add: upd_at_def)
  qed
  then show ?thesis
    using assms(1,2) by (simp add: col_major_def[symmetric] fold_upd_pair fold_col_major)
qed

lemma forM_col_major:
  assumes "length s = w * h"
    and "\<And>x y s. x < w \<Longrightarrow> y < h \<Longrightarrow> length s = w * h \<Longrightarrow> body (x, y) s = Some (upd_at W (y * w + x) s)"
  shows "forM (List.product [0 ..< w] [0 ..< h]) body s = Some (map (\<lambda>i. W i (s ! i)) [0 ..< w * h])"
proof -
  have "forM (List.product [0 ..< w] [0 ..< h]) body s =
        Some (fold (upd_at W) (map (\<lambda>(x, y). y * w + x) (List.product [0 ..< w] [0 ..< h])) s)"
  proof (rule forM_fold_map[where P = "\<lambda>s. length s = w * h"])
    show "length s = w * h" by (rule assms(1))
  next
    fix k and t :: "'a list"
    assume k: "k \<in> set (List.product [0 ..< w] [0 ..< h])" and P: "length t = w * h"
    obtain x y where xy: "k = (x, y)" by (cases k)
    with k have "x < w" "y < h" by simp_all
    then have "body (x, y) t = Some (upd_at W (y * w + x) t)" using assms(2) P by simp
    then show "body k t = Some (upd_at W (case k of (x, y) \<Rightarrow> y * w + x) t) \<and>
         length (upd_at W (case k of (x, y) \<Rightarrow> y * w + x) t) = w * h"
      using P xy by (simp add: upd_at_def)
  qed
  then show ?thesis
    using assms(1) by (simp add: col_major_def[symmetric] fold_col_major)
qed

lemma fold_col_major_pixels:
  assumes "length s = w * h"
    and "\<And>x y s. x < w \<Longrightarrow> y < h \<Longrightarrow> length s = w * h \<Longrightarrow> body (x, y) s = upd_at W (y * w + x) s"
  shows "fold body (List.product [0 ..< w] [0 ..< h]) s = map (\<lambda>i. W i (s ! i)) [0 ..< w * h]"
proof -
  have "fold body (List.product [0 ..< w] [0 ..< h]) s =
        fold (upd_at W) (map (\<lambda>(x, y). y * w + x) (List.product [0 ..< w] [0 ..< h])) s"
  proof (rule fold_fold_map[where P = "\<lambda>s. length s = w * h"])
    show "length s = w * h" by (rule assms(1))
  next
    fix k and t :: "'a list"
    assume k: "k \<in> set (List.product [0 ..< w] [0 ..< h])" and P: "length t = w * h"
    obtain x y where xy: "k = (x, y)" by (cases k)
    with k have "x < w" "y < h" by simp_all
    then have "body (x, y) t = upd_at W (y * w + x) t" using assms(2) P by simp
    then show "body k t = upd_at W (case k of (x, y) \<Rightarrow> y * w + x) t \<and>
         length (upd_at W (case k of (x, y) \<Rightarrow> y * w + x) t) = w * h"
      using P xy by (simp add: upd_at_def)
  qed
  then show ?thesis
    using assms(1) by (simp add: col_major_def[symmetric] fold_col_major)
qed

lemma fold_row_major_pixels:
  assumes "length s = w * h"
    and "\<And>x y s. x < w \<Longrightarrow> y < h \<Longrightarrow> length s = w * h \<Longrightarrow> body (y, x) s = upd_at W (y * w + x) s"
  shows "fold body (List.product [0 ..< h] [0 ..< w]) s = map (\<lambda>i. W i (s ! i)) [0 ..< w * h]"
proof -
  have "fold body (List.product [0 ..< h] [0 ..< w]) s =
        fold (upd_at W) (map (\<lambda>(y, x). y * w + x) (List.product [0 ..< h] [0 ..< w])) s"
  proof (rule fold_fold_map[where P = "\<lambda>s. length s = w * h"])
    show "length s = w * h" by (rule assms(1))
  next
    fix k and t :: "'a list"
    assume k: "k \<in> set (List.product [0 ..< h] [0 ..< w])" and P: "length t = w * h"
    obtain x y where xy: "k = (y, x)" by (cases k)
    with k have "x < w" "y < h" by simp_all
    then have "body (y, x) t = upd_at W (y * w + x) t" using assms(2) P by simp
    then show "body k t = upd_at W (case k of (y, x) \<Rightarrow> y * w + x) t \<and>
         length (upd_at W (case k of (y, x) \<Rightarrow> y * w + x) t) = w * h"
      using P xy by (simp add: upd_at_def)
  qed
  then show ?thesis
    using assms(1) by (simp add: row_major_def[symmetric] fold_row_major)
qed

text \<open>The initialisation loop and the pass loop of \<open>jumpFlood\<close>.\<close>

lemma jf_init_eq:
  assumes "w * h \<le> length om"
  shows "jf_init w h om = Some (jf_start w h om)"
proof -
  let ?Wd = "\<lambda>i (_::int). if om ! i then 0 else int (w * w + h * h)"
  let ?Wn = "\<lambda>i (_::Point). if om ! i then Point (int (i mod w)) (int (i div w)) else Point (- 1) (- 1)"
  have "forM (List.product [0 ..< w] [0 ..< h]) (\<lambda>(x, y). jf_init_pixel w h om x y)
          (replicate (w * h) 0, replicate (w * h) (Point 0 0)) =
        Some (map (\<lambda>i. ?Wd i (fst (replicate (w * h) 0, replicate (w * h) (Point 0 0)) ! i)) [0 ..< w * h],
              map (\<lambda>i. ?Wn i (snd (replicate (w * h) (0::int), replicate (w * h) (Point 0 0)) ! i)) [0 ..< w * h])"
  proof (rule forM_col_major_pair)
    fix x y and s :: "int list \<times> Point list"
    assume a: "x < w" "y < h" "length (fst s) = w * h" "length (snd s) = w * h"
    then have i: "y * w + x < w * h" by (simp add: idx_less)
    with assms have "y * w + x < length om" by simp
    with a i show "(case (x, y) of (x, y) \<Rightarrow> jf_init_pixel w h om x y) s =
        Some (upd_at ?Wd (y * w + x) (fst s), upd_at ?Wn (y * w + x) (snd s))"
      by (simp add: jf_init_pixel_def slice_get_def slice_set_def upd_at_def case_prod_beta Let_def)
  qed simp_all
  then show ?thesis by (simp add: jf_init_def jf_start_def)
qed

lemma length_jf_next [simp]:
  "length (fst (jf_next w h step g)) = w * h" "length (snd (jf_next w h step g)) = w * h"
  by (simp_all add: jf_next_def)

lemma length_jf_start [simp]:
  "length (fst (jf_start w h om)) = w * h" "length (snd (jf_start w h om)) = w * h"
  by (simp_all add: jf_start_def)

lemma length_jf_grids [simp]:
  "length (fst (jf_grids w h om k)) = w * h" "length (snd (jf_grids w h om k)) = w * h"
  by (cases k; simp)+

lemma jumpFlood_run_ok:
  assumes "0 < numCpu" "numCpu \<le> Suc h" "w * h \<le> length om"
  shows "jumpFlood_run numCpu w h om =
         Some (jf_grids w h om (maxSteps w h - 1), maxSteps w h - 1)"
proof (cases "maxSteps w h = 0")
  case True
  then show ?thesis using assms(3) by (simp add: jumpFlood_run_def jf_init_eq)
next
  case False
  define G where "G i = (jf_grids w h om (i - 1), i - 1)" for i
  have "forM [1 ..< maxSteps w h] (jf_step numCpu w h) (G 1) = Some (G (maxSteps w h))"
  proof (rule forM_upt_chain)
    show "1 \<le> maxSteps w h" using False by simp
  next
    fix i :: nat assume i: "1 \<le> i"
    then obtain k where k: "i = Suc k" by (cases i) simp_all
    have "jf_pass numCpu w h (Suc k) (jf_grids w h om k) = Some (jf_next w h (Suc k) (jf_grids w h om k))"
      by (rule jf_pass_ok[OF assms(1,2)]) simp_all
    then show "jf_step numCpu w h i (G i) = Some (G (Suc i))"
      by (simp add: jf_step_def G_def k)
  qed
  then show ?thesis using assms(3) by (simp add: jumpFlood_run_def jf_init_eq G_def)
qed

lemma jumpFlood_run_panic:
  assumes "0 < w" "Suc h < numCpu" "length om = w * h" "2 \<le> maxSteps w h"
  shows "jumpFlood_run numCpu w h om = None"
proof -
  have "jf_pass numCpu w h 1 (jf_start w h om) = None"
    by (rule jf_pass_panic[OF assms(1,2)]) simp_all
  then have "jf_step numCpu w h 1 (jf_start w h om, 0) = None"
    by (simp add: jf_step_def)
  moreover have "[1 ..< maxSteps w h] = 1 # [Suc 1 ..< maxSteps w h]"
    using assms(4) by (intro upt_conv_Cons) simp
  ultimately show ?thesis using assms(3) by (simp add: jumpFlood_run_def jf_init_eq)
qed

lemma jumpFlood_ok:
  assumes "0 < numCpu" "numCpu \<le> Suc h" "w * h \<le> length om"
  shows "jumpFlood numCpu w h om = Some (snd (jf_grids w h om (maxSteps w h - 1)))"
  by (simp add: jumpFlood_def jumpFlood_run_ok[OF assms])

text \<open>The three loops of \<open>process_paint_net_alg\<close>.\<close>

lemma pn_copy_eq:
  "pn_copy input = map (\<lambda>i. rgbaModel (in_px input i)) [0 ..< Dx input * Dy input]"
proof -
  let ?w = "Dx input" and ?h = "Dy input"
  have "fold (\<lambda>(y, x) out. rgba_set ?w ?h out x y (rgbaModel (At input (int x) (int y))))
          (List.product [0 ..< ?h] [0 ..< ?w]) (newRGBA ?w ?h) =
        map (\<lambda>i. (\<lambda>i _. rgbaModel (in_px input i)) i (newRGBA ?w ?h ! i)) [0 ..< ?w * ?h]"
    by (rule fold_row_major_pixels)
       (simp_all add: newRGBA_def rgba_set_def upd_at_def in_px_def)
  then show ?thesis by (simp add: pn_copy_def)
qed

lemma pn_mask_eq:
  assumes "length out = Dx input * Dy input"
  shows "pn_mask input out =
         Some (map (\<lambda>i. if opaque_in input i
                         then RGBA (ucast (c_r (in_px input i))) (ucast (c_g (in_px input i)))
                                   (ucast (c_b (in_px input i))) 255
                         else out ! i) [0 ..< Dx input * Dy input],
               mask_of input)"
proof -
  let ?w = "Dx input" and ?h = "Dy input"
  let ?Wa = "\<lambda>i old. if opaque_in input i
                      then RGBA (ucast (c_r (in_px input i))) (ucast (c_g (in_px input i)))
                                (ucast (c_b (in_px input i))) 255
                      else old"
  let ?Wb = "\<lambda>i old. if opaque_in input i then True else old"
  have "forM (List.product [0 ..< ?w] [0 ..< ?h]) (pn_mask_pixel input)
          (out, replicate (?w * ?h) False) =
        Some (map (\<lambda>i. ?Wa i (fst (out, replicate (?w * ?h) False) ! i)) [0 ..< ?w * ?h],
              map (\<lambda>i. ?Wb i (snd (out, replicate (?w * ?h) False) ! i)) [0 ..< ?w * ?h])"
  proof (rule forM_col_major_pair)
    fix x y and s :: "RGBA list \<times> bool list"
    assume a: "x < ?w" "y < ?h" "length (fst s) = ?w * ?h" "length (snd s) = ?w * ?h"
    then have i: "y * ?w + x < ?w * ?h" by (simp add: idx_less)
    with a show "pn_mask_pixel input (x, y) s =
        Some (upd_at ?Wa (y * ?w + x) (fst s), upd_at ?Wb (y * ?w + x) (snd s))"
      by (simp add: pn_mask_pixel_def slice_set_def upd_at_def rgba_set_def case_prod_beta
          Let_def opaque_in_def in_px_def prod_eq_iff)
  qed (simp_all add: assms)
  then show ?thesis by (simp add: pn_mask_def mask_of_def cong: map_cong)
qed

lemma pn_fill_eq:
  assumes "length out = Dx input * Dy input" "Dx input * Dy input \<le> length nearest"
  shows "pn_fill input nearest out =
         Some (map (\<lambda>i. if opaque_in input i then out ! i else pn_pixel input nearest i)
                 [0 ..< Dx input * Dy input])"
proof -
  let ?w = "Dx input" and ?h = "Dy input"
  let ?W = "\<lambda>i old. if opaque_in input i then old else pn_pixel input nearest i"
  have "forM (List.product [0 ..< ?w] [0 ..< ?h]) (pn_fill_pixel input nearest) out =
        Some (map (\<lambda>i. ?W i (out ! i)) [0 ..< ?w * ?h])"
  proof (rule forM_col_major)
    fix x y and s :: "RGBA list"
    assume a: "x < ?w" "y < ?h" "length s = ?w * ?h"
    then have i: "y * ?w + x < ?w * ?h" by (simp add: idx_less)
    with a assms(2) show "pn_fill_pixel input nearest (x, y) s = Some (upd_at ?W (y * ?w + x) s)"
      by (simp add: pn_fill_pixel_def slice_get_def upd_at_def rgba_set_def pn_pixel_def
          Let_def opaque_in_def in_px_def)
  qed (simp add: assms)
  then show ?thesis by (simp add: pn_fill_def)
qed

text \<open>A pass returns exactly when the raster is empty or there are at most
  \<open>height + 1\<close> workers, and so does \<open>jumpFlood\<close> when it makes a pass.\<close>

lemma product_Nil2: "List.product xs [] = []"
  by (induction xs) simp_all

lemma jf_pass_empty: "jf_pass numCpu 0 h step g = Some g"
proof -
  have "forM [0 ..< numCpu]
          (\<lambda>i st'. processJumpFlood 0 h (fst g) (snd g) st' (int step)
                     (fst (chunk h numCpu i)) (snd (chunk h numCpu i))) ((\<lambda>_. g) 0) = Some ((\<lambda>_. g) numCpu)"
    by (rule forM_upt_chain) (simp_all add: processJumpFlood_def product_Nil2)
  then show ?thesis by (simp add: jf_pass_def Let_def)
qed

lemma jf_pass_cases:
  assumes "0 < numCpu" "length (fst g) = w * h" "length (snd g) = w * h"
  shows "jf_pass numCpu w h step g =
         (if w = 0 \<or> numCpu \<le> Suc h then Some (jf_next w h step g) else None)"
proof (cases "w = 0")
  case True
  with assms(2,3) have "jf_next w h step g = g" by (simp add: jf_next_def prod_eq_iff)
  with True show ?thesis by (simp add: jf_pass_empty)
next
  case False
  then show ?thesis
    using jf_pass_ok[OF assms(1) _ assms(2,3), of step] jf_pass_panic[OF _ _ assms(2,3), of numCpu step]
    by auto
qed

lemma jf_steps_cases:
  assumes "0 < numCpu" "jf_step numCpu w h (Suc k) (jf_grids w h om k, k) = Some r"
  shows "r = (jf_grids w h om (Suc k), Suc k)"
  using assms(2) jf_pass_cases[OF assms(1), of "jf_grids w h om k" w h "Suc k"]
  by (auto simp: jf_step_def split: option.splits if_splits)

lemma forM_Some_chain:
  assumes "forM [a ..< b] body (G a) = Some r" "a \<le> b"
    and "\<And>i r. a \<le> i \<Longrightarrow> i < b \<Longrightarrow> body i (G i) = Some r \<Longrightarrow> r = G (Suc i)"
  shows "r = G b"
  using assms
proof (induction b arbitrary: r)
  case 0
  then show ?case by simp
next
  case (Suc b)
  show ?case
  proof (cases "a = Suc b")
    case True
    with Suc.prems(1) show ?thesis by simp
  next
    case False
    with Suc.prems(2) have le: "a \<le> b" by simp
    from Suc.prems(1) le obtain r' where r': "forM [a ..< b] body (G a) = Some r'" "body b r' = Some r"
      by (auto simp: forM_append split: option.splits)
    have "r' = G b" using Suc.IH[OF r'(1) le] Suc.prems(3) by simp
    with r'(2) show ?thesis using Suc.prems(3)[of b r] le by simp
  qed
qed

lemma jumpFlood_run_Some:
  assumes "0 < numCpu" "w * h \<le> length om" "jumpFlood_run numCpu w h om = Some r"
  shows "r = (jf_grids w h om (maxSteps w h - 1), maxSteps w h - 1)"
proof (cases "maxSteps w h = 0")
  case True
  then show ?thesis using assms(2,3) by (simp add: jumpFlood_run_def jf_init_eq)
next
  case False
  define G where "G i = (jf_grids w h om (i - 1), i - 1)" for i
  have run: "forM [1 ..< maxSteps w h] (jf_step numCpu w h) (G 1) = Some r"
    using assms(2,3) by (simp add: jumpFlood_run_def jf_init_eq G_def)
  have "r = G (maxSteps w h)"
  proof (rule forM_Some_chain[where G = G, OF run])
    show "1 \<le> maxSteps w h" using False by simp
  next
    fix i r assume i: "1 \<le> i" and st: "jf_step numCpu w h i (G i) = Some r"
    from i obtain k where k: "i = Suc k" by (cases i) simp_all
    from st show "r = G (Suc i)"
      using jf_steps_cases[OF assms(1), of w h k om r] by (simp add: G_def k)
  qed
  then show ?thesis by (simp add: G_def)
qed

lemma jumpFlood_Some:
  assumes "0 < numCpu" "w * h \<le> length om" "jumpFlood numCpu w h om = Some nearest"
  shows "nearest = snd (jf_grids w h om (maxSteps w h - 1))"
proof -
  from assms(3) obtain r where r: "jumpFlood_run numCpu w h om = Some r" "nearest = snd (fst r)"
    by (auto simp: jumpFlood_def)
  from jumpFlood_run_Some[OF assms(1,2) r(1)] r(2) show ?thesis by simp
qed

text \<open>\<open>process_paint_net_alg\<close>, pixel by pixel.\<close>

lemma length_mask_of [simp]: "length (mask_of input) = Dx input * Dy input"
  by (simp add: mask_of_def)

lemma process_paint_net_alg_eq:
  assumes "0 < numCpu"
  shows "process_paint_net_alg numCpu input =
     map_option (\<lambda>nearest. map (pn_pixel input nearest) [0 ..< Dx input * Dy input])
       (jumpFlood numCpu (Dx input) (Dy input) (mask_of input))"
proof (cases "jumpFlood numCpu (Dx input) (Dy input) (mask_of input)")
  case None
  then show ?thesis
    by (simp add: process_paint_net_alg_def pn_mask_eq pn_copy_eq)
next
  case (Some nearest)
  then have "nearest = snd (jf_grids (Dx input) (Dy input) (mask_of input)
                              (maxSteps (Dx input) (Dy input) - 1))"
    by (intro jumpFlood_Some[OF assms]) simp_all
  then have len: "length nearest = Dx input * Dy input" by simp
  let ?out = "map (\<lambda>i. if opaque_in input i
                         then RGBA (ucast (c_r (in_px input i))) (ucast (c_g (in_px input i)))
                                   (ucast (c_b (in_px input i))) 255
                         else pn_copy input ! i) [0 ..< Dx input * Dy input]"
  have "map (\<lambda>i. if opaque_in input i then ?out ! i else pn_pixel input nearest i)
          [0 ..< Dx input * Dy input]
        = map (pn_pixel input nearest) [0 ..< Dx input * Dy input]"
    by (rule nth_equalityI) (simp_all add: pn_pixel_def opaque_in_def Let_def)
  moreover have "pn_fill input nearest ?out =
      Some (map (\<lambda>i. if opaque_in input i then ?out ! i else pn_pixel input nearest i)
              [0 ..< Dx input * Dy input])"
    by (rule pn_fill_eq) (simp_all add: len)
  moreover have "pn_mask input (pn_copy input) = Some (?out, mask_of input)"
    by (rule pn_mask_eq) (simp add: pn_copy_eq)
  ultimately show ?thesis
    using Some by (simp add: process_paint_net_alg_def)
qed

section \<open>What the grid of nearest pixels names\<close>

lemma tri_Suc: "tri (Suc k) = tri k + Suc k"
  by (simp add: tri_def)

text \<open>The scan keeps its best pair or takes the stored source of an in-bounds pixel that
  is one offset away; a distance of 0 is never replaced.\<close>

lemma jf_scan_cases:
  "jf_scan w h nc x y nb b = b \<or>
   (fst (jf_scan w h nc x y nb b) < fst b \<and>
    0 \<le> int x + fst nb \<and> int x + fst nb < int w \<and> 0 \<le> int y + snd nb \<and> int y + snd nb < int h \<and>
    snd (jf_scan w h nc x y nb b) = nc ! (nat (int y + snd nb) * w + nat (int x + fst nb)) \<and>
    pt_x (snd (jf_scan w h nc x y nb b)) \<noteq> - 1 \<and> pt_y (snd (jf_scan w h nc x y nb b)) \<noteq> - 1)"
  by (simp add: jf_scan_def Let_def)

lemma jf_scan_nonneg: "fst b \<le> 0 \<Longrightarrow> jf_scan w h nc x y nb b = b"
proof -
  assume b: "fst b \<le> 0"
  have "0 \<le> a * a + c * c" for a c :: int by simp
  then have "\<not> a * a + c * c < fst b" for a c :: int using b by (simp add: not_less order_trans)
  then show ?thesis by (simp add: jf_scan_def Let_def)
qed

lemma jf_scan_fold_nonneg: "fst b \<le> 0 \<Longrightarrow> fold (jf_scan w h nc x y) nbs b = b"
  by (induction nbs) (simp_all add: jf_scan_nonneg)

lemma jf_scan_fold_cases:
  "fold (jf_scan w h nc x y) nbs b = b \<or>
   (\<exists>nb \<in> set nbs.
      0 \<le> int x + fst nb \<and> int x + fst nb < int w \<and> 0 \<le> int y + snd nb \<and> int y + snd nb < int h \<and>
      snd (fold (jf_scan w h nc x y) nbs b) = nc ! (nat (int y + snd nb) * w + nat (int x + fst nb)) \<and>
      pt_x (snd (fold (jf_scan w h nc x y) nbs b)) \<noteq> - 1 \<and>
      pt_y (snd (fold (jf_scan w h nc x y) nbs b)) \<noteq> - 1)"
proof (induction nbs arbitrary: b)
  case Nil
  then show ?case by simp
next
  case (Cons nb nbs)
  let ?b = "jf_scan w h nc x y nb b"
  from Cons.IH[of ?b] show ?case
  proof
    assume same: "fold (jf_scan w h nc x y) nbs ?b = ?b"
    from jf_scan_cases[of w h nc x y nb b] show ?thesis
    proof
      assume "?b = b"
      with same show ?thesis by simp
    next
      assume "fst ?b < fst b \<and>
        0 \<le> int x + fst nb \<and> int x + fst nb < int w \<and> 0 \<le> int y + snd nb \<and> int y + snd nb < int h \<and>
        snd ?b = nc ! (nat (int y + snd nb) * w + nat (int x + fst nb)) \<and>
        pt_x (snd ?b) \<noteq> - 1 \<and> pt_y (snd ?b) \<noteq> - 1"
      with same show ?thesis by auto
    qed
  next
    assume "\<exists>nb \<in> set nbs.
      0 \<le> int x + fst nb \<and> int x + fst nb < int w \<and> 0 \<le> int y + snd nb \<and> int y + snd nb < int h \<and>
      snd (fold (jf_scan w h nc x y) nbs ?b) = nc ! (nat (int y + snd nb) * w + nat (int x + fst nb)) \<and>
      pt_x (snd (fold (jf_scan w h nc x y) nbs ?b)) \<noteq> - 1 \<and>
      pt_y (snd (fold (jf_scan w h nc x y) nbs ?b)) \<noteq> - 1"
    then show ?thesis by auto
  qed
qed

lemma neighbours_bound:
  "nb \<in> set (neighbours (int step)) \<Longrightarrow> \<bar>fst nb\<bar> \<le> int step \<and> \<bar>snd nb\<bar> \<le> int step"
  by (auto simp: neighbours_def)

text \<open>The invariant holds of the initial grids, and a pass with the step \<open>s\<close> widens its
  bound by \<open>s\<close>.\<close>

lemma jf_inv_start: "jf_inv w h om 0 (jf_start w h om)"
  by (auto simp: jf_inv_def jf_start_def pt_of_def near_def)

lemma jf_inv_next:
  assumes "jf_inv w h om B g"
  shows "jf_inv w h om (B + step) (jf_next w h step g)"
proof -
  have "(snd (jf_next w h step g) ! i = Point (- 1) (- 1) \<or>
         (\<exists>j < w * h. om ! j \<and> snd (jf_next w h step g) ! i = pt_of w j \<and> near w (B + step) i j)) \<and>
        (om ! i \<longrightarrow> snd (jf_next w h step g) ! i = pt_of w i \<and> fst (jf_next w h step g) ! i = 0)"
    if i: "i < w * h" for i
  proof (intro conjI impI)
  have w: "0 < w" using i by (cases w) simp_all
  let ?x = "i mod w" and ?y = "i div w"
  let ?b = "(fst g ! i, snd g ! i)"
  let ?r = "fold (jf_scan w h (snd g) ?x ?y) (neighbours (int step)) ?b"
  have r: "jf_best w h step g i = ?r" by (simp add: jf_best_def)
  have nth: "snd (jf_next w h step g) ! i = snd ?r" "fst (jf_next w h step g) ! i = fst ?r"
    using i by (simp_all add: jf_next_def r)
  have old: "snd g ! i = Point (- 1) (- 1) \<or>
         (\<exists>j < w * h. om ! j \<and> snd g ! i = pt_of w j \<and> near w B i j)"
    and oldo: "om ! i \<longrightarrow> snd g ! i = pt_of w i \<and> fst g ! i = 0"
    using assms i by (auto simp: jf_inv_def)
  show "snd (jf_next w h step g) ! i = Point (- 1) (- 1) \<or>
        (\<exists>j < w * h. om ! j \<and> snd (jf_next w h step g) ! i = pt_of w j \<and> near w (B + step) i j)"
    using jf_scan_fold_cases[of w h "snd g" ?x ?y "neighbours (int step)" ?b]
  proof
    assume "?r = ?b"
    with old show ?thesis unfolding nth by (auto simp: near_def)
  next
    assume "\<exists>nb \<in> set (neighbours (int step)).
      0 \<le> int ?x + fst nb \<and> int ?x + fst nb < int w \<and> 0 \<le> int ?y + snd nb \<and> int ?y + snd nb < int h \<and>
      snd ?r = snd g ! (nat (int ?y + snd nb) * w + nat (int ?x + fst nb)) \<and>
      pt_x (snd ?r) \<noteq> - 1 \<and> pt_y (snd ?r) \<noteq> - 1"
    then obtain nb where nb: "nb \<in> set (neighbours (int step))"
      and inb: "0 \<le> int ?x + fst nb" "int ?x + fst nb < int w" "0 \<le> int ?y + snd nb" "int ?y + snd nb < int h"
      and sr: "snd ?r = snd g ! (nat (int ?y + snd nb) * w + nat (int ?x + fst nb))"
      and res: "pt_x (snd ?r) \<noteq> - 1"
      by blast
    let ?nx = "nat (int ?x + fst nb)" and ?ny = "nat (int ?y + snd nb)"
    let ?k = "?ny * w + ?nx"
    have nxw: "?nx < w" using inb by simp
    have k: "?k < w * h" using inb by (intro nbr_idx_less) simp_all
    have kmod: "?k mod w = ?nx" "?k div w = ?ny" using nxw by simp_all
    have "snd g ! ?k = Point (- 1) (- 1) \<or>
         (\<exists>j < w * h. om ! j \<and> snd g ! ?k = pt_of w j \<and> near w B ?k j)"
      using assms k by (auto simp: jf_inv_def)
    with res sr obtain j where j: "j < w * h" "om ! j" "snd g ! ?k = pt_of w j" "near w B ?k j"
      by auto
    have "near w (B + step) i j"
      using j(4) neighbours_bound[OF nb] inb unfolding near_def kmod by auto
    with j sr show ?thesis unfolding nth by auto
  qed
  assume "om ! i"
  with oldo have b: "snd g ! i = pt_of w i" "fst g ! i = 0" by simp_all
  then have "?r = ?b" by (intro jf_scan_fold_nonneg) simp
  with b show "snd (jf_next w h step g) ! i = pt_of w i" "fst (jf_next w h step g) ! i = 0"
    unfolding nth by simp_all
  qed
  then show ?thesis unfolding jf_inv_def by simp
qed

lemma jf_inv_grids: "jf_inv w h om (tri k) (jf_grids w h om k)"
proof (induction k)
  case 0
  then show ?case by (simp add: tri_def jf_inv_start[unfolded tri_def])
next
  case (Suc k)
  then show ?case using jf_inv_next[of w h om "tri k" "jf_grids w h om k" "Suc k"]
    by (simp add: tri_Suc)
qed

text \<open>The states the pass loop goes through.\<close>

lemma jumpFlood_run_prefix:
  "jumpFlood_run numCpu w h om = jumpFlood_prefix numCpu w h om (maxSteps w h - 1)"
proof -
  have "[1 ..< maxSteps w h] = [1 ..< Suc (min (maxSteps w h - 1) (maxSteps w h - 1))]"
    by (cases "maxSteps w h") simp_all
  then show ?thesis by (simp only: jumpFlood_run_def jumpFlood_prefix_def)
qed

lemma jf_loop_Some:
  assumes "0 < numCpu" "forM [1 ..< Suc k] (jf_step numCpu w h) (jf_start w h om, 0) = Some r"
  shows "r = (jf_grids w h om k, k)"
proof -
  define G where "G i = (jf_grids w h om (i - 1), i - 1)" for i
  have run: "forM [1 ..< Suc k] (jf_step numCpu w h) (G 1) = Some r"
    using assms(2) by (simp add: G_def)
  have "r = G (Suc k)"
  proof (rule forM_Some_chain[where G = G, OF run])
    fix i r assume i: "1 \<le> i" and st: "jf_step numCpu w h i (G i) = Some r"
    from i obtain j where j: "i = Suc j" by (cases i) simp_all
    from st show "r = G (Suc i)"
      using jf_steps_cases[OF assms(1), of w h j om r] by (simp add: G_def j)
  qed simp
  then show ?thesis by (simp add: G_def)
qed

lemma jumpFlood_prefix_Some:
  assumes "0 < numCpu" "w * h \<le> length om" "jumpFlood_prefix numCpu w h om k = Some r"
  shows "r = (jf_grids w h om (min k (maxSteps w h - 1)), min k (maxSteps w h - 1))"
  using assms(2,3) jf_loop_Some[OF assms(1), of "min k (maxSteps w h - 1)" w h om r]
  by (simp add: jumpFlood_prefix_def jf_init_eq)

lemma jf_invD:
  assumes "jf_inv w h om B g" "i < w * h"
  shows "snd g ! i = Point (- 1) (- 1) \<or>
         (\<exists>j < w * h. om ! j \<and> snd g ! i = pt_of w j \<and> near w B i j)"
    and "om ! i \<Longrightarrow> snd g ! i = pt_of w i \<and> fst g ! i = 0"
  using assms by (simp_all add: jf_inv_def)

lemma nth_mask_of: "i < Dx input * Dy input \<Longrightarrow> mask_of input ! i = opaque_in input i"
  by (simp add: mask_of_def)

text \<open>
  Claim C10.  In every state that the loop of \<^verbatim>\<open>jumpFlood\<close> reaches after a number of
  completed passes (\<open>jumpFlood_prefix\<close>), with the mask of the input: every entry of
  \<^verbatim>\<open>nearest\<close> is the sentinel \<open>{-1, -1}\<close> or names a pixel that is opaque in the input, and
  the entry of an opaque pixel is the pixel itself, at distance 0.  Hence every pixel that
  \<^verbatim>\<open>process_paint_net_alg\<close> recolours is transparent black or has the colour (the high
  bytes) of a pixel that is opaque in the input.
\<close>

theorem C10_nearest_names_opaque:
  assumes "0 < numCpu"
  shows "(\<forall>k distances nearest c i.
            jumpFlood_prefix numCpu (Dx input) (Dy input) (mask_of input) k
              = Some ((distances, nearest), c) \<longrightarrow>
            i < Dx input * Dy input \<longrightarrow>
              (nearest ! i = Point (- 1) (- 1) \<or>
               (\<exists>j < Dx input * Dy input. opaque_in input j \<and>
                  nearest ! i = Point (int (j mod Dx input)) (int (j div Dx input)))) \<and>
              (opaque_in input i \<longrightarrow>
                 nearest ! i = Point (int (i mod Dx input)) (int (i div Dx input)) \<and>
                 distances ! i = 0)) \<and>
         (\<forall>out i.
            process_paint_net_alg numCpu input = Some out \<longrightarrow>
            i < Dx input * Dy input \<longrightarrow> \<not> opaque_in input i \<longrightarrow>
              out ! i = RGBA 0 0 0 0 \<or>
              (\<exists>j < Dx input * Dy input. opaque_in input j \<and>
                 out ! i = RGBA (ucast (drop_bit 8 (c_r (in_px input j))))
                                (ucast (drop_bit 8 (c_g (in_px input j))))
                                (ucast (drop_bit 8 (c_b (in_px input j)))) 255))"
proof (intro conjI allI impI)
  fix k distances nearest c i
  assume run: "jumpFlood_prefix numCpu (Dx input) (Dy input) (mask_of input) k
                 = Some ((distances, nearest), c)"
    and i: "i < Dx input * Dy input"
  let ?w = "Dx input" and ?h = "Dy input"
  let ?m = "min k (maxSteps ?w ?h - 1)"
  have g: "(distances, nearest) = jf_grids ?w ?h (mask_of input) ?m"
    using jumpFlood_prefix_Some[OF assms _ run] by simp
  have inv: "jf_inv ?w ?h (mask_of input) (tri ?m) (distances, nearest)"
    unfolding g by (rule jf_inv_grids)
  from jf_invD(1)[OF inv i] show "nearest ! i = Point (- 1) (- 1) \<or>
      (\<exists>j < ?w * ?h. opaque_in input j \<and> nearest ! i = Point (int (j mod ?w)) (int (j div ?w)))"
  proof
    assume "snd (distances, nearest) ! i = Point (- 1) (- 1)"
    then show ?thesis by simp
  next
    assume "\<exists>j < ?w * ?h. mask_of input ! j \<and> snd (distances, nearest) ! i = pt_of ?w j \<and>
              near ?w (tri ?m) i j"
    then obtain j where "j < ?w * ?h" "mask_of input ! j" "nearest ! i = pt_of ?w j" by auto
    then have "j < ?w * ?h \<and> opaque_in input j \<and>
               nearest ! i = Point (int (j mod ?w)) (int (j div ?w))"
      by (simp add: nth_mask_of pt_of_def)
    then show ?thesis by blast
  qed
  assume "opaque_in input i"
  then have "mask_of input ! i" using i by (simp add: nth_mask_of)
  from jf_invD(2)[OF inv i this]
  show "nearest ! i = Point (int (i mod ?w)) (int (i div ?w))" "distances ! i = 0"
    by (simp_all add: pt_of_def)
next
  fix out i
  assume run: "process_paint_net_alg numCpu input = Some out"
    and i: "i < Dx input * Dy input" and tr: "\<not> opaque_in input i"
  let ?w = "Dx input" and ?h = "Dy input"
  from run obtain nearest where n: "jumpFlood numCpu ?w ?h (mask_of input) = Some nearest"
    and out: "out = map (pn_pixel input nearest) [0 ..< ?w * ?h]"
    by (auto simp: process_paint_net_alg_eq[OF assms])
  have "nearest = snd (jf_grids ?w ?h (mask_of input) (maxSteps ?w ?h - 1))"
    using n by (intro jumpFlood_Some[OF assms]) simp_all
  then have inv: "jf_inv ?w ?h (mask_of input) (tri (maxSteps ?w ?h - 1))
                   (fst (jf_grids ?w ?h (mask_of input) (maxSteps ?w ?h - 1)), nearest)"
    using jf_inv_grids[of ?w ?h "mask_of input" "maxSteps ?w ?h - 1"] by simp
  from jf_invD(1)[OF this i] have cases: "nearest ! i = Point (- 1) (- 1) \<or>
      (\<exists>j < ?w * ?h. opaque_in input j \<and> nearest ! i = pt_of ?w j)"
  proof
    assume "snd (fst (jf_grids ?w ?h (mask_of input) (maxSteps ?w ?h - 1)), nearest) ! i
            = Point (- 1) (- 1)"
    then show ?thesis by simp
  next
    assume "\<exists>j < ?w * ?h. mask_of input ! j \<and>
              snd (fst (jf_grids ?w ?h (mask_of input) (maxSteps ?w ?h - 1)), nearest) ! i = pt_of ?w j \<and>
              near ?w (tri (maxSteps ?w ?h - 1)) i j"
    then obtain j where "j < ?w * ?h" "mask_of input ! j" "nearest ! i = pt_of ?w j" by auto
    then have "j < ?w * ?h \<and> opaque_in input j \<and> nearest ! i = pt_of ?w j"
      by (simp add: nth_mask_of)
    then show ?thesis by blast
  qed
  have oi: "out ! i = pn_pixel input nearest i" using i out by simp
  from cases show "out ! i = RGBA 0 0 0 0 \<or>
      (\<exists>j < ?w * ?h. opaque_in input j \<and>
         out ! i = RGBA (ucast (drop_bit 8 (c_r (in_px input j))))
                        (ucast (drop_bit 8 (c_g (in_px input j))))
                        (ucast (drop_bit 8 (c_b (in_px input j)))) 255)"
  proof
    assume "nearest ! i = Point (- 1) (- 1)"
    then show ?thesis using tr unfolding oi by (simp add: pn_pixel_def opaque_in_def Let_def)
  next
    assume "\<exists>j < ?w * ?h. opaque_in input j \<and> nearest ! i = pt_of ?w j"
    then obtain j where j: "j < ?w * ?h" "opaque_in input j" "nearest ! i = pt_of ?w j" by blast
    have "pn_pixel input nearest i =
          RGBA (ucast (drop_bit 8 (c_r (in_px input j)))) (ucast (drop_bit 8 (c_g (in_px input j))))
               (ucast (drop_bit 8 (c_b (in_px input j)))) 255"
      using tr j(3) by (simp add: pn_pixel_def opaque_in_def Let_def pt_of_def in_px_def)
    with j(1,2) show ?thesis unfolding oi by blast
  qed
qed

text \<open>The theorem at the raster of two pixels, after its only pass and in the result.\<close>

theorem C10_nearest_names_opaque_witness:
  "(0::nat) < 1 \<and>
   jumpFlood_prefix 1 (Dx pair_px) (Dy pair_px) (mask_of pair_px) 1
     = Some (([0, 1], [Point 0 0, Point 0 0]), 1) \<and>
   (1::nat) < Dx pair_px * Dy pair_px \<and> opaque_in pair_px 0 \<and> \<not> opaque_in pair_px 1 \<and>
   ([Point 0 0, Point 0 0] ! 1 = Point (- 1) (- 1) \<or>
    (\<exists>j < Dx pair_px * Dy pair_px. opaque_in pair_px j \<and>
       [Point 0 0, Point 0 0] ! 1 = Point (int (j mod Dx pair_px)) (int (j div Dx pair_px)))) \<and>
   [Point 0 0, Point 0 0] ! 0 = Point (int (0 mod Dx pair_px)) (int (0 div Dx pair_px)) \<and>
   [0, 1 :: int] ! 0 = 0 \<and>
   process_paint_net_alg 1 pair_px = Some [RGBA 255 0 0 255, RGBA 255 0 0 255] \<and>
   ([RGBA 255 0 0 255, RGBA 255 0 0 255] ! 1 = RGBA 0 0 0 0 \<or>
    (\<exists>j < Dx pair_px * Dy pair_px. opaque_in pair_px j \<and>
       [RGBA 255 0 0 255, RGBA 255 0 0 255] ! 1 =
         RGBA (ucast (drop_bit 8 (c_r (in_px pair_px j)))) (ucast (drop_bit 8 (c_g (in_px pair_px j))))
              (ucast (drop_bit 8 (c_b (in_px pair_px j)))) 255))"
proof -
  have run: "jumpFlood_prefix 1 (Dx pair_px) (Dy pair_px) (mask_of pair_px) 1
               = Some (([0, 1], [Point 0 0, Point 0 0]), 1)"
    by code_simp
  have out: "process_paint_net_alg 1 pair_px = Some [RGBA 255 0 0 255, RGBA 255 0 0 255]"
    by code_simp
  have px: "(1::nat) < Dx pair_px * Dy pair_px" "(0::nat) < Dx pair_px * Dy pair_px"
    "opaque_in pair_px 0" "\<not> opaque_in pair_px 1"
    by code_simp+
  note inst = C10_nearest_names_opaque[of 1 pair_px, OF zero_less_one]
  note grid = inst[THEN conjunct1, rule_format, OF run]
  have a: "[Point 0 0, Point 0 0] ! 1 = Point (- 1) (- 1) \<or>
    (\<exists>j < Dx pair_px * Dy pair_px. opaque_in pair_px j \<and>
       [Point 0 0, Point 0 0] ! 1 = Point (int (j mod Dx pair_px)) (int (j div Dx pair_px)))"
    by (rule grid[OF px(1), THEN conjunct1])
  have b: "[Point 0 0, Point 0 0] ! 0 = Point (int (0 mod Dx pair_px)) (int (0 div Dx pair_px))
     \<and> [0, 1 :: int] ! 0 = 0"
    by (rule grid[OF px(2), THEN conjunct2, rule_format, OF px(3)])
  have c: "[RGBA 255 0 0 255, RGBA 255 0 0 255] ! 1 = RGBA 0 0 0 0 \<or>
    (\<exists>j < Dx pair_px * Dy pair_px. opaque_in pair_px j \<and>
       [RGBA 255 0 0 255, RGBA 255 0 0 255] ! 1 =
         RGBA (ucast (drop_bit 8 (c_r (in_px pair_px j)))) (ucast (drop_bit 8 (c_g (in_px pair_px j))))
              (ucast (drop_bit 8 (c_b (in_px pair_px j)))) 255)"
    by (rule inst[THEN conjunct2, rule_format, OF out px(1,4)])
  from run out px(1,3,4) a b c show ?thesis by (intro conjI) simp_all
qed



section \<open>How far the passes reach\<close>

lemma strip_mask: "j < 93 \<Longrightarrow> mask_of strip ! j = (j = 0)"
  by (simp add: mask_of_def strip_def opaque_in_def in_px_def)

lemma strip_steps: "maxSteps 1 93 = 14"
  by code_simp

text \<open>
  Claim C2 asks that every pixel of the output is opaque as soon as the input has an opaque
  pixel.  The passes of \<^verbatim>\<open>jumpFlood\<close> use the steps \<open>1, 2, ..., maxSteps - 1\<close>, so after all
  of them an entry of \<^verbatim>\<open>nearest\<close> can only name a pixel within \<open>tri (maxSteps - 1)\<close> rows and
  columns (\<open>jf_inv_grids\<close>).  For a column of 93 pixels that is 91: the last pixel is 92 rows
  away from the only opaque one, stays unresolved and is written as transparent black.
\<close>

theorem C2_far_pixel_stays_transparent:
  "c_a (At strip 0 0) = 0xffff \<and>
   map_option (\<lambda>out. out ! 92) (process_paint_net_alg 1 strip) = Some (RGBA 0 0 0 0)"
proof -
  let ?n = "snd (jf_grids 1 93 (mask_of strip) 13)"
  have dims: "Dx strip = 1" "Dy strip = 93" by (simp_all add: strip_def)
  have "jumpFlood 1 1 93 (mask_of strip) = Some (snd (jf_grids 1 93 (mask_of strip) (maxSteps 1 93 - 1)))"
    by (rule jumpFlood_ok) (simp_all add: dims)
  moreover have "maxSteps 1 93 - 1 = 13" unfolding strip_steps by simp
  ultimately have jf: "jumpFlood 1 1 93 (mask_of strip) = Some ?n" by (simp only:)
  have inv: "jf_inv 1 93 (mask_of strip) (tri 13) (jf_grids 1 93 (mask_of strip) 13)"
    by (rule jf_inv_grids)
  have "?n ! 92 = Point (- 1) (- 1) \<or>
        (\<exists>j < 1 * 93. mask_of strip ! j \<and> ?n ! 92 = pt_of 1 j \<and> near 1 (tri 13) 92 j)"
    by (rule jf_invD(1)[OF inv]) simp
  moreover have "\<not> (mask_of strip ! j \<and> near 1 (tri 13) 92 j)" if "j < 1 * 93" for j
    using that by (auto simp: strip_mask near_def tri_def)
  ultimately have n: "?n ! 92 = Point (- 1) (- 1)" by blast
  have "pn_pixel strip ?n 92 = RGBA 0 0 0 0"
    using n by (simp add: pn_pixel_def Let_def in_px_def strip_def)
  then have "map_option (\<lambda>out. out ! 92) (process_paint_net_alg 1 strip) = Some (RGBA 0 0 0 0)"
    using jf by (simp add: process_paint_net_alg_eq dims)
  moreover have "c_a (At strip 0 0) = 0xffff" by (simp add: strip_def)
  ultimately show ?thesis by simp
qed

section \<open>The number of passes\<close>

lemma clog2_upper: "n \<le> 2 ^ clog2 n"
proof (induction n rule: clog2.induct)
  case (1 n)
  show ?case
  proof (cases "n \<le> 1")
    case True
    then show ?thesis by (simp add: clog2.simps)
  next
    case False
    then have "(n + 1) div 2 \<le> 2 ^ clog2 ((n + 1) div 2)" by (rule "1.IH")
    then have "n \<le> 2 * 2 ^ clog2 ((n + 1) div 2)" by linarith
    with False show ?thesis by (simp add: clog2.simps[of n])
  qed
qed

lemma clog2_pos: "2 \<le> m \<Longrightarrow> 0 < clog2 m"
  by (subst clog2.simps) simp

lemma clog2_small: "m \<le> 1 \<Longrightarrow> clog2 m = 0"
  by (subst clog2.simps) simp

lemma clog2_lower: "2 \<le> n \<Longrightarrow> 2 ^ (clog2 n - 1) < n"
proof (induction n rule: clog2.induct)
  case (1 n)
  then have n: "\<not> n \<le> 1" by simp
  show ?case
  proof (cases "2 \<le> (n + 1) div 2")
    case True
    then have "2 ^ (clog2 ((n + 1) div 2) - 1) < (n + 1) div 2" using "1.IH"[OF n] by simp
    moreover have "0 < clog2 ((n + 1) div 2)" using True by (rule clog2_pos)
    ultimately have "2 ^ clog2 ((n + 1) div 2) + 2 \<le> 2 * ((n + 1) div 2)"
      by (cases "clog2 ((n + 1) div 2)") simp_all
    then have "2 ^ clog2 ((n + 1) div 2) < n" by linarith
    with n show ?thesis by (simp add: clog2.simps[of n])
  next
    case False
    then have "clog2 ((n + 1) div 2) = 0" by (intro clog2_small) simp
    with n "1.prems" show ?thesis by (simp add: clog2.simps[of n])
  qed
qed

lemma clog2_ceiling:
  assumes "1 \<le> n"
  shows "clog2 n = nat \<lceil>log 2 (real n)\<rceil>"
proof (cases "n = 1")
  case True
  then show ?thesis by (simp add: clog2.simps)
next
  case False
  with assms have n: "2 \<le> n" by simp
  have up: "log 2 (real n) \<le> real (clog2 n)"
    using clog2_upper[of n] assms by (intro log2_of_power_le) simp_all
  have lo: "real (clog2 n - 1) < log 2 (real n)"
    using clog2_lower[OF n] by (intro less_log2_of_power) simp
  have pos: "0 < clog2 n" using n by (rule clog2_pos)
  have "\<lceil>log 2 (real n)\<rceil> = int (clog2 n)"
  proof (rule ceiling_unique)
    show "real_of_int (int (clog2 n)) - 1 < log 2 (real n)" using lo pos by (simp add: of_nat_diff)
    show "log 2 (real n) \<le> real_of_int (int (clog2 n))" using up by simp
  qed
  then show ?thesis by simp
qed

text \<open>
  Claim C3 asks for exactly \<open>2 * ceil(log2(max(W,H)))\<close> passes.  The loop
  \<^verbatim>\<open>for step := 1; step < maxSteps; step++\<close> starts at 1 and stops before \<^verbatim>\<open>maxSteps\<close>, so a
  run that is not ended by a panic makes one pass less (and none for a raster of one pixel,
  where the subtraction on natural numbers stops at 0).
\<close>

theorem C3_pass_count:
  assumes "0 < numCpu" "numCpu \<le> Suc h" "length om = w * h" "0 < w" "0 < h"
  shows "map_option snd (jumpFlood_run numCpu w h om) =
         Some (2 * nat \<lceil>log 2 (real (max w h))\<rceil> - 1)"
proof -
  have "1 \<le> max w h" using assms(4) by simp
  then have "clog2 (max w h) = nat \<lceil>log 2 (real (max w h))\<rceil>" by (rule clog2_ceiling)
  then show ?thesis
    using jumpFlood_run_ok[OF assms(1,2), of w om] assms(3) by (simp add: maxSteps_def mult.commute)
qed

text \<open>The theorem at a raster of 2 by 2 pixels with one worker: one pass.\<close>

theorem C3_pass_count_witness:
  "(0::nat) < 1 \<and> (1::nat) \<le> Suc 2 \<and> length [True, False, False, False] = 2 * 2 \<and>
   map_option snd (jumpFlood_run 1 2 2 [True, False, False, False]) = Some 1"
  using C3_pass_count[of 1 2 "[True, False, False, False]" 2] by simp

text \<open>The claim as stated fails there: it asks for two passes.\<close>

theorem C3_one_pass_of_two:
  "map_option snd (jumpFlood_run 1 2 2 [True, False, False, False]) = Some 1 \<and>
   2 * nat \<lceil>log 2 (real (max 2 2))\<rceil> = 2"
proof -
  have "map_option snd (jumpFlood_run 1 2 2 [True, False, False, False]) = Some 1"
    by code_simp
  then show ?thesis by simp
qed

section \<open>One pass of the averaging loop\<close>

text \<open>The 16-bit value of a byte \<open>v\<close> is \<open>257 * v\<close>; it is \<open>0xffff\<close> exactly for
  \<open>v = 255\<close>.\<close>

lemma widen_add: "widen v = ucast v + push_bit 8 (ucast v)"
proof -
  have "and (ucast v :: uint32) (push_bit 8 (ucast v)) = 0"
    by (rule bit_eqI) (auto simp: bit_simps dest: bit_imp_le_length)
  then have "ucast v + push_bit 8 (ucast v) = or (ucast v :: uint32) (push_bit 8 (ucast v))"
    by (rule disjunctive_add_eq_or)
  then show ?thesis by (simp add: widen_def)
qed

lemma unat_byte: "unat (v :: uint8) < 256"
  using unsigned_less[of v, where 'a = nat] by simp

lemma widen_unat: "unat (widen v) = 257 * unat v"
proof -
  note v = unat_byte[of v]
  have a: "unat (ucast v :: uint32) = unat v"
    using v by (simp add: unsigned_ucast_eq take_bit_nat_eq_self)
  have "256 * unat v < 2 ^ 32" using v by simp
  then have "take_bit LENGTH(32) (push_bit 8 (unat v)) = 256 * unat v"
    by (simp add: take_bit_nat_eq_self push_bit_eq_mult)
  then have b: "unat (push_bit 8 (ucast v :: uint32)) = 256 * unat v"
    by (simp only: unsigned_push_bit_eq a)
  have "unat (ucast v :: uint32) + unat (push_bit 8 (ucast v :: uint32)) < 2 ^ LENGTH(32)"
    using v unfolding a b by simp
  then have "unat (ucast v + push_bit 8 (ucast v) :: uint32) =
             unat (ucast v :: uint32) + unat (push_bit 8 (ucast v :: uint32))"
    by (simp only: unat_add_lem)
  then have "unat (ucast v + push_bit 8 (ucast v) :: uint32) = unat v + 256 * unat v"
    by (simp only: a b)
  then show ?thesis unfolding widen_add by simp
qed

lemma widen_opaque: "widen a = 0xffff \<longleftrightarrow> a = 255"
proof
  assume "widen a = 0xffff"
  then have "unat (widen a) = unat (0xffff :: uint32)" by simp
  then have "unat a = 255" by (simp add: widen_unat)
  then have "unat a = unat (255 :: uint8)" by simp
  then show "a = 255" by (simp only: word_unat_eq_iff)
next
  assume "a = 255"
  then show "widen a = 0xffff" by (simp add: widen_def)
qed

text \<open>The loop over the four offsets gathers the opaque neighbours of the snapshot; its
  \<open>uint32\<close> sums of at most four 16-bit values do not wrap.\<close>

lemma ia_neighbour_step:
  "ia_neighbour w h pix x y n (r, g, b, count) =
   (if 0 \<le> int x + fst n \<and> int x + fst n < int w \<and> 0 \<le> int y + snd n \<and> int y + snd n < int h \<and>
       cA (pix ! (nat (int y + snd n) * w + nat (int x + fst n))) = 255
    then (r + widen (cR (pix ! (nat (int y + snd n) * w + nat (int x + fst n)))),
          g + widen (cG (pix ! (nat (int y + snd n) * w + nat (int x + fst n)))),
          b + widen (cB (pix ! (nat (int y + snd n) * w + nat (int x + fst n)))),
          count + 1)
    else (r, g, b, count))"
  by (simp add: ia_neighbour_def rgba_at_def RGBA_of_def widen_opaque Let_def)

lemma ia_neighbours_fold:
  "fold (ia_neighbour w h pix x y) ns (r, g, b, count) =
   (let cs = filter (\<lambda>c. cA c = 255)
               (map (\<lambda>n. pix ! (nat (int y + snd n) * w + nat (int x + fst n)))
                  (filter (\<lambda>n. 0 \<le> int x + fst n \<and> int x + fst n < int w \<and>
                                0 \<le> int y + snd n \<and> int y + snd n < int h) ns))
    in (r + sum_list (map (\<lambda>c. widen (cR c)) cs), g + sum_list (map (\<lambda>c. widen (cG c)) cs),
        b + sum_list (map (\<lambda>c. widen (cB c)) cs), count + of_nat (length cs)))"
proof (induction ns arbitrary: r g b count)
  case Nil
  then show ?case by simp
next
  case (Cons n ns)
  show ?case
    by (simp add: Cons.IH ia_neighbour_step Let_def add.assoc del: of_nat_Suc)
       (simp add: add.commute)
qed

lemma ia_gather_eq:
  assumes "x < w"
  shows "ia_gather w h pix x y =
         (sum_list (map (\<lambda>c. widen (cR c)) (opaque_nbrs w h pix (y * w + x))),
          sum_list (map (\<lambda>c. widen (cG c)) (opaque_nbrs w h pix (y * w + x))),
          sum_list (map (\<lambda>c. widen (cB c)) (opaque_nbrs w h pix (y * w + x))),
          of_nat (length (opaque_nbrs w h pix (y * w + x))))"
  using assms
  by (simp add: ia_gather_def ia_neighbours_fold opaque_nbrs_def nbrs4_def Let_def comp_def)

lemma length_opaque_nbrs: "length (opaque_nbrs w h pix i) \<le> 4"
proof -
  have "length (opaque_nbrs w h pix i) \<le> length (nbrs4 w h i)"
    unfolding opaque_nbrs_def by (rule order_trans[OF length_filter_le]) simp
  also have "\<dots> \<le> length neighbours4"
    unfolding nbrs4_def by (simp del: filter.simps)
  also have "\<dots> = 4" by (simp add: neighbours4_def)
  finally show ?thesis .
qed

lemma unat_sum_widen:
  assumes "length cs \<le> 4"
  shows "unat (sum_list (map (\<lambda>c. widen (f c)) cs) :: uint32) = sum_list (map (\<lambda>c. 257 * unat (f c)) cs)"
proof -
  have "unat (sum_list (map (\<lambda>c. widen (f c)) cs) :: uint32) = sum_list (map (\<lambda>c. 257 * unat (f c)) cs)
        \<and> sum_list (map (\<lambda>c. 257 * unat (f c)) cs) \<le> 65535 * length cs"
    using assms
  proof (induction cs)
    case Nil
    then show ?case by simp
  next
    case (Cons c cs)
    then have IH: "unat (sum_list (map (\<lambda>c. widen (f c)) cs) :: uint32) = sum_list (map (\<lambda>c. 257 * unat (f c)) cs)"
      "sum_list (map (\<lambda>c. 257 * unat (f c)) cs) \<le> 65535 * length cs" and len: "length cs \<le> 3"
      by simp_all
    have c: "unat (widen (f c)) \<le> 65535" using unat_byte[of "f c"] by (simp add: widen_unat)
    have "unat (widen (f c)) + unat (sum_list (map (\<lambda>c. widen (f c)) cs) :: uint32) < 2 ^ LENGTH(32)"
      using c IH len by simp
    then have "unat (widen (f c) + sum_list (map (\<lambda>c. widen (f c)) cs) :: uint32) =
               unat (widen (f c)) + unat (sum_list (map (\<lambda>c. widen (f c)) cs) :: uint32)"
      by (simp only: unat_add_lem)
    then show ?case using c IH by (simp add: widen_unat)
  qed
  then show ?thesis by simp
qed

lemma mean_byte_eq:
  assumes "length cs \<le> 4"
  shows "ucast (drop_bit 8 (sum_list (map (\<lambda>c. widen (f c)) cs) div of_nat (length cs) :: uint32))
         = mean_byte (map (\<lambda>c. 257 * unat (f c)) cs)"
proof -
  let ?S = "sum_list (map (\<lambda>c. 257 * unat (f c)) cs)"
  have n: "unat (of_nat (length cs) :: uint32) = length cs"
    using assms by (simp add: unat_of_nat)
  have "unat (sum_list (map (\<lambda>c. widen (f c)) cs) div of_nat (length cs) :: uint32) = ?S div length cs"
    by (simp add: unat_div unat_sum_widen[OF assms] n)
  then have "drop_bit 8 (unat (sum_list (map (\<lambda>c. widen (f c)) cs) div of_nat (length cs) :: uint32))
             = (?S div length cs) div 256"
    by (simp add: drop_bit_eq_div)
  then have "unat (drop_bit 8 (sum_list (map (\<lambda>c. widen (f c)) cs) div of_nat (length cs) :: uint32))
             = (?S div length cs) div 256"
    by (simp only: unat_drop_bit_eq)
  then have "unat (ucast (drop_bit 8 (sum_list (map (\<lambda>c. widen (f c)) cs) div of_nat (length cs) :: uint32)) :: uint8)
             = ((?S div length cs) div 256) mod 256"
    by (simp add: unsigned_ucast_eq take_bit_eq_mod)
  moreover have "unat (mean_byte (map (\<lambda>c. 257 * unat (f c)) cs)) = ((?S div length cs) div 256) mod 256"
    by (simp add: mean_byte_def unat_of_nat)
  ultimately show ?thesis by (simp only: word_unat_eq_iff)
qed

text \<open>The body of the loops at one pixel, and the loops over all pixels in any order.\<close>

lemma count_pos:
  assumes "length cs \<le> 4"
  shows "(0 < (of_nat (length cs) :: uint32)) \<longleftrightarrow> cs \<noteq> []"
proof -
  have "unat (of_nat (length cs) :: uint32) = length cs" using assms by (simp add: unat_of_nat)
  then show ?thesis by (simp add: word_less_nat_alt)
qed

lemma fold_upd_count:
  "fold (\<lambda>i s. (upd_at W i (fst s), snd s - c i)) is s =
   (fold (upd_at W) is (fst s), snd s - sum_list (map c is))"
  for c :: "nat \<Rightarrow> int"
  by (induction "is" arbitrary: s) (simp_all add: algebra_simps)

lemma sum_list_indicator:
  assumes "distinct is"
  shows "sum_list (map (\<lambda>i. if Q i then 1 else 0) is) = int (card {i \<in> set is. Q i})"
proof -
  have "sum_list (map (\<lambda>i. if Q i then 1 else (0::int)) is) = (\<Sum>i\<in>set is. if Q i then 1 else 0)"
    using assms by (rule sum_list_distinct_conv_sum_set)
  also have "\<dots> = (\<Sum>i\<in>{i \<in> set is. Q i}. 1)"
    by (simp add: sum.inter_filter[symmetric])
  also have "\<dots> = int (card {i \<in> set is. Q i})" by simp
  finally show ?thesis .
qed

lemma ia_pixel_eq:
  assumes "x < w"
  shows "ia_pixel w h pix out (y, x) s =
         (upd_at (\<lambda>i old. if ia_fills w h pix out i then avg_colour (opaque_nbrs w h pix i) else old)
            (y * w + x) (fst s),
          snd s - (if ia_fills w h pix out (y * w + x) then 1 else 0))"
proof -
  let ?i = "y * w + x"
  note len = length_opaque_nbrs[of w h pix ?i]
  show ?thesis
    by (cases s)
       (simp add: ia_pixel_def ia_gather_eq[OF assms] Let_def ia_fills_def upd_at_def
          count_pos[OF len] mean_byte_eq[OF len] avg_colour_def)
qed

lemma ia_pixels_any_order:
  assumes "distinct ks" "set ks = {0 ..< h} \<times> {0 ..< w}" "length t = w * h"
  shows "fold (ia_pixel w h pix out) ks (t, rem) =
         (map (\<lambda>i. if ia_fills w h pix out i then avg_colour (opaque_nbrs w h pix i) else t ! i)
            [0 ..< w * h],
          rem - int (card {i. i < w * h \<and> ia_fills w h pix out i}))"
proof -
  let ?W = "\<lambda>i old. if ia_fills w h pix out i then avg_colour (opaque_nbrs w h pix i) else old"
  let ?c = "\<lambda>i. if ia_fills w h pix out i then 1 else (0::int)"
  let ?ix = "\<lambda>(y, x). y * w + x"
  let ?is = "map ?ix ks"
  have "fold (ia_pixel w h pix out) ks (t, rem) =
        fold (\<lambda>i s. (upd_at ?W i (fst s), snd s - ?c i)) ?is (t, rem)"
  proof (rule fold_fold_map[where P = "\<lambda>s. True"])
    fix k and s :: "RGBA list \<times> int"
    assume "k \<in> set ks"
    then obtain y x where "k = (y, x)" "x < w" using assms(2) by auto
    then show "ia_pixel w h pix out k s =
        (upd_at ?W (?ix k) (fst s), snd s - ?c (?ix k)) \<and> True"
      by (simp add: ia_pixel_eq)
  qed simp
  also have "\<dots> = (fold (upd_at ?W) ?is t, rem - sum_list (map ?c ?is))"
    by (simp add: fold_upd_count)
  finally have eq: "fold (ia_pixel w h pix out) ks (t, rem) =
      (fold (upd_at ?W) ?is t, rem - sum_list (map ?c ?is))" .
  have inj: "inj_on ?ix (set ks)"
    unfolding assms(2) by (auto simp: inj_on_def dest: idx_inj)
  have dist: "distinct ?is" using assms(1) inj by (simp add: distinct_map)
  have "?ix ` ({0 ..< h} \<times> {0 ..< w}) = (\<lambda>(x, y). y * w + x) ` ({0 ..< w} \<times> {0 ..< h})"
    by (auto simp: image_iff)
  then have set: "set ?is = {0 ..< w * h}" using idx_image[of w h] assms(2) by simp
  have "fold (upd_at ?W) ?is t = map (\<lambda>i. ?W i (t ! i)) [0 ..< length t]"
    using dist set by (intro fold_upd_at_all) (simp_all add: assms(3))
  moreover have "sum_list (map ?c ?is) = int (card {i \<in> set ?is. ia_fills w h pix out i})"
    using dist by (rule sum_list_indicator)
  moreover have "{i \<in> set ?is. ia_fills w h pix out i} = {i. i < w * h \<and> ia_fills w h pix out i}"
    unfolding set by auto
  ultimately show ?thesis using eq assms(3) by simp
qed

lemma ia_pass_eq:
  assumes "length (st_output st) = w * h"
  shows "ia_pass w h st =
         \<lparr> st_rgba = ia_next w h (st_rgba st) (st_output st),
           st_output = ia_next w h (st_rgba st) (st_output st),
           st_remaining = st_remaining st
              - int (card {i. i < w * h \<and> ia_fills w h (st_rgba st) (st_output st) i}),
           st_passes = st_passes st + 1 \<rparr>"
proof -
  have "fold (ia_pixel w h (st_rgba st) (st_output st)) (List.product [0 ..< h] [0 ..< w])
          (st_output st, st_remaining st) =
        (ia_next w h (st_rgba st) (st_output st),
         st_remaining st - int (card {i. i < w * h \<and> ia_fills w h (st_rgba st) (st_output st) i}))"
    unfolding ia_next_def
    by (rule ia_pixels_any_order) (simp_all add: distinct_product assms)
  then show ?thesis by (simp add: ia_pass_def Let_def)
qed

text \<open>
  Claim C5.  One pass of the averaging loop, started with rasters of \<open>w * h\<close> pixels, is the
  raster \<open>ia_next\<close>: a pixel whose alpha in \<^verbatim>\<open>output\<close> is not 255 and that has an opaque
  neighbour to the left, right, above or below in \<^verbatim>\<open>rgba\<close> (the snapshot; \<open>opaque_nbrs\<close>)
  becomes \<open>avg_colour\<close> of these neighbours, that is, per channel the high byte of the sum
  of their 16-bit values divided (truncating) by their number, with alpha 255, and
  \<^verbatim>\<open>remaining\<close> goes down by one for each such pixel; every other pixel keeps its value.
  The same comes out when the loop body runs through the pixels in any other order \<open>ks\<close>.
\<close>

theorem C5_pass_is_simultaneous:
  assumes "length (st_output st) = w * h" "distinct ks" "set ks = {0 ..< h} \<times> {0 ..< w}"
  shows "ia_pass w h st =
           \<lparr> st_rgba = ia_next w h (st_rgba st) (st_output st),
             st_output = ia_next w h (st_rgba st) (st_output st),
             st_remaining = st_remaining st
                - int (card {i. i < w * h \<and> ia_fills w h (st_rgba st) (st_output st) i}),
             st_passes = st_passes st + 1 \<rparr> \<and>
         fold (ia_pixel w h (st_rgba st) (st_output st)) ks (st_output st, st_remaining st) =
           (ia_next w h (st_rgba st) (st_output st),
            st_remaining st
              - int (card {i. i < w * h \<and> ia_fills w h (st_rgba st) (st_output st) i}))"
proof
  show "ia_pass w h st =
           \<lparr> st_rgba = ia_next w h (st_rgba st) (st_output st),
             st_output = ia_next w h (st_rgba st) (st_output st),
             st_remaining = st_remaining st
                - int (card {i. i < w * h \<and> ia_fills w h (st_rgba st) (st_output st) i}),
             st_passes = st_passes st + 1 \<rparr>"
    using assms(1) by (rule ia_pass_eq)
  show "fold (ia_pixel w h (st_rgba st) (st_output st)) ks (st_output st, st_remaining st) =
           (ia_next w h (st_rgba st) (st_output st),
            st_remaining st
              - int (card {i. i < w * h \<and> ia_fills w h (st_rgba st) (st_output st) i}))"
    unfolding ia_next_def using assms(2,3,1) by (rule ia_pixels_any_order)
qed

text \<open>The theorem at the raster of 3 by 3 pixels whose centre is transparent, with red
  pixels beside, above and below it and blue corners: the centre becomes \<open>(255, 0, 0, 255)\<close>,
  also when the pixels are visited in reverse order.\<close>

theorem C5_pass_is_simultaneous_witness:
  "length (st_output (ia_start red3)) = 3 * 3 \<and>
   distinct (rev (List.product [0 ..< 3] [0 ..< 3 :: nat])) \<and>
   set (rev (List.product [0 ..< 3] [0 ..< 3 :: nat])) = {0 ..< 3} \<times> {0 ..< 3} \<and>
   st_output (ia_pass 3 3 (ia_start red3)) ! 4 = RGBA 255 0 0 255 \<and>
   st_remaining (ia_pass 3 3 (ia_start red3)) = 0 \<and>
   fold (ia_pixel 3 3 (st_rgba (ia_start red3)) (st_output (ia_start red3)))
     (rev (List.product [0 ..< 3] [0 ..< 3])) (st_output (ia_start red3), st_remaining (ia_start red3))
   = (st_output (ia_pass 3 3 (ia_start red3)), st_remaining (ia_pass 3 3 (ia_start red3)))"
proof -
  have len: "length (st_output (ia_start red3)) = 3 * 3" by code_simp
  have d: "distinct (rev (List.product [0 ..< 3] [0 ..< 3 :: nat]))"
    by (simp add: distinct_product)
  have s: "set (rev (List.product [0 ..< 3] [0 ..< 3 :: nat])) = {0 ..< 3} \<times> {0 ..< 3}"
    by simp
  note inst = C5_pass_is_simultaneous[OF len d s]
  have px: "st_output (ia_pass 3 3 (ia_start red3)) ! 4 = RGBA 255 0 0 255"
    "st_remaining (ia_pass 3 3 (ia_start red3)) = 0"
    by code_simp+
  from inst have "fold (ia_pixel 3 3 (st_rgba (ia_start red3)) (st_output (ia_start red3)))
     (rev (List.product [0 ..< 3] [0 ..< 3])) (st_output (ia_start red3), st_remaining (ia_start red3))
   = (st_output (ia_pass 3 3 (ia_start red3)), st_remaining (ia_pass 3 3 (ia_start red3)))"
    by simp
  with len d s px show ?thesis by (intro conjI)
qed

section \<open>The averaging loop fills one ring of pixels per pass\<close>

text \<open>The copy of the input and the count of its pixels that are not opaque.\<close>

lemma ia_copy_eq:
  "ia_copy input = map (\<lambda>i. rgbaModel (in_px input i)) [0 ..< Dx input * Dy input]"
proof -
  let ?w = "Dx input" and ?h = "Dy input"
  have "fold (\<lambda>(x, y) pix. rgba_set ?w ?h pix x y (rgbaModel (At input (int x) (int y))))
          (List.product [0 ..< ?w] [0 ..< ?h]) (newRGBA ?w ?h) =
        map (\<lambda>i. (\<lambda>i _. rgbaModel (in_px input i)) i (newRGBA ?w ?h ! i)) [0 ..< ?w * ?h]"
    by (rule fold_col_major_pixels)
       (simp_all add: newRGBA_def rgba_set_def upd_at_def in_px_def)
  then show ?thesis by (simp add: ia_copy_def)
qed

lemma fold_count:
  "fold (\<lambda>k n. if Q k then n + 1 else n) ks n = n + sum_list (map (\<lambda>k. if Q k then 1 else 0) ks)"
  for n :: int
  by (induction ks arbitrary: n) simp_all

lemma ia_count_eq:
  "ia_count w h pix = int (card {i. i < w * h \<and> \<not> opq pix i})"
proof -
  let ?Q = "\<lambda>i. \<not> opq pix i"
  let ?ks = "List.product [0 ..< w] [0 ..< h]"
  have "ia_count w h pix =
        fold (\<lambda>k n. if ?Q (case k of (x, y) \<Rightarrow> y * w + x) then n + 1 else n) ?ks 0"
    unfolding ia_count_def
    by (rule fold_cong) (auto simp: rgba_at_def RGBA_of_def widen_opaque opq_def fun_eq_iff)
  also have "\<dots> = sum_list (map (\<lambda>k. if ?Q (case k of (x, y) \<Rightarrow> y * w + x) then 1 else 0) ?ks)"
    by (simp add: fold_count)
  also have "\<dots> = sum_list (map (\<lambda>i. if ?Q i then 1 else 0) (col_major w h))"
    by (simp add: col_major_def comp_def)
  also have "\<dots> = int (card {i \<in> set (col_major w h). ?Q i})"
    by (rule sum_list_indicator) (rule distinct_col_major)
  also have "{i \<in> set (col_major w h). ?Q i} = {i. i < w * h \<and> ?Q i}"
    by (auto simp: set_col_major)
  finally show ?thesis .
qed

text \<open>The 4-connected distance: the triangle inequality, the pixels at distance 1, and a
  step towards a pixel further away.\<close>

lemma gap_triangle: "gap a c \<le> gap a b + gap b c"
  unfolding gap_def by linarith

lemma gap_refl [simp]: "gap a a = 0"
  by (simp add: gap_def)

lemma div_less_height: "i < w * h \<Longrightarrow> i div w < (h::nat)"
  by (simp add: less_mult_imp_div_less mult.commute)

lemma mod_less_width: "i < w * h \<Longrightarrow> i mod w < (w::nat)"
  by (cases w) simp_all

lemma manh_coords:
  "x < w \<Longrightarrow> x' < w \<Longrightarrow>
   manh w (y * w + x) (y' * w + x') = gap x x' + gap y y'"
  by (simp add: manh_def)

lemma manh_refl [simp]: "manh w i i = 0"
  by (simp add: manh_def)

lemma manh_triangle: "manh w i k \<le> manh w i j + manh w j k"
  unfolding manh_def
  using gap_triangle[of "i mod w" "k mod w" "j mod w"] gap_triangle[of "i div w" "k div w" "j div w"]
  by linarith

lemma nbrs4_set:
  "set (nbrs4 w h i) =
     (\<lambda>n. nat (int (i div w) + snd n) * w + nat (int (i mod w) + fst n)) `
       {n \<in> set neighbours4.
          0 \<le> int (i mod w) + fst n \<and> int (i mod w) + fst n < int w \<and>
          0 \<le> int (i div w) + snd n \<and> int (i div w) + snd n < int h}"
  by (simp add: nbrs4_def)

lemma gap_one_cases:
  assumes "gap a b + gap c d = 1"
  shows "(int b - int a, int d - int c) \<in> {(- 1, 0), (1, 0), (0, - 1), (0, 1)}"
proof -
  from assms consider "gap a b = 1" "gap c d = 0" | "gap a b = 0" "gap c d = 1" by linarith
  then show ?thesis
  proof cases
    case 1
    then have "c = d" "b = a + 1 \<or> a = b + 1" unfolding gap_def by linarith+
    then show ?thesis by auto
  next
    case 2
    then have "a = b" "d = c + 1 \<or> c = d + 1" unfolding gap_def by linarith+
    then show ?thesis by auto
  qed
qed

lemma nbrs4_iff:
  assumes "i < w * h"
  shows "j \<in> set (nbrs4 w h i) \<longleftrightarrow> j < w * h \<and> manh w i j = 1"
proof
  assume "j \<in> set (nbrs4 w h i)"
  then obtain n where d: "n \<in> set neighbours4"
    and inb: "0 \<le> int (i mod w) + fst n" "int (i mod w) + fst n < int w"
             "0 \<le> int (i div w) + snd n" "int (i div w) + snd n < int h"
    and j: "j = nat (int (i div w) + snd n) * w + nat (int (i mod w) + fst n)"
    unfolding nbrs4_set by blast
  have xw: "nat (int (i mod w) + fst n) < w" using inb by simp
  have jm: "j mod w = nat (int (i mod w) + fst n)" "j div w = nat (int (i div w) + snd n)"
    unfolding j using xw by simp_all
  have "j < w * h" unfolding j using inb by (intro nbr_idx_less) simp_all
  moreover have "manh w i j = 1" unfolding manh_def jm gap_def using d inb
    by (auto simp: neighbours4_def)
  ultimately show "j < w * h \<and> manh w i j = 1" by simp
next
  assume a: "j < w * h \<and> manh w i j = 1"
  let ?n = "(int (j mod w) - int (i mod w), int (j div w) - int (i div w))"
  have jx: "j mod w < w" and jy: "j div w < h"
    using a[THEN conjunct1] by (simp_all add: mod_less_width div_less_height)
  have "gap (i mod w) (j mod w) + gap (i div w) (j div w) = 1" using a by (simp add: manh_def)
  then have "?n \<in> set neighbours4"
    unfolding neighbours4_def using gap_one_cases by simp
  moreover have "0 \<le> int (i mod w) + fst ?n \<and> int (i mod w) + fst ?n < int w \<and>
        0 \<le> int (i div w) + snd ?n \<and> int (i div w) + snd ?n < int h"
    using jx jy by simp
  moreover have "j = nat (int (i div w) + snd ?n) * w + nat (int (i mod w) + fst ?n)"
    by simp
  ultimately show "j \<in> set (nbrs4 w h i)" unfolding nbrs4_set by blast
qed

lemma gap_step:
  assumes "gap a b = Suc k" "b < n" "a < n"
  shows "\<exists>a' < n. gap a a' = 1 \<and> gap a' b = k"
proof (cases "a < b")
  case True
  then have "a + 1 < n \<and> gap a (a + 1) = 1 \<and> gap (a + 1) b = k"
    using assms unfolding gap_def by linarith
  then show ?thesis by blast
next
  case False
  then have "a - 1 < n \<and> gap a (a - 1) = 1 \<and> gap (a - 1) b = k"
    using assms unfolding gap_def by linarith
  then show ?thesis by blast
qed

lemma manh_step:
  assumes "i < w * h" "j < w * h" "manh w i j = Suc k"
  shows "\<exists>i' < w * h. manh w i i' = 1 \<and> manh w i' j = k"
proof -
  define x y xj yj where "x = i mod w" and "y = i div w" and "xj = j mod w" and "yj = j div w"
  have b: "x < w" "y < h" "xj < w" "yj < h"
    using assms(1,2) by (simp_all add: x_def y_def xj_def yj_def mod_less_width div_less_height)
  have i: "i = y * w + x" and j: "j = yj * w + xj"
    by (simp_all add: x_def y_def xj_def yj_def)
  have d: "gap x xj + gap y yj = Suc k"
    using assms(3) unfolding i j by (simp add: manh_coords b)
  have "\<exists>x' y'. x' < w \<and> y' < h \<and> gap x x' + gap y y' = 1 \<and> gap x' xj + gap y' yj = k"
  proof (cases "gap x xj")
    case 0
    with d have "gap y yj = Suc k" by simp
    from gap_step[OF this b(4) b(2)] obtain y' where "y' < h" "gap y y' = 1" "gap y' yj = k" by blast
    with 0 b(1) have "x < w \<and> y' < h \<and> gap x x + gap y y' = 1 \<and> gap x xj + gap y' yj = k"
      by simp
    then show ?thesis by blast
  next
    case (Suc m)
    from gap_step[OF this b(3) b(1)] obtain x' where "x' < w" "gap x x' = 1" "gap x' xj = m" by blast
    with Suc d b(2) have "x' < w \<and> y < h \<and> gap x x' + gap y y = 1 \<and> gap x' xj + gap y yj = k"
      by simp
    then show ?thesis by blast
  qed
  then obtain x' y' where c: "x' < w" "y' < h" "gap x x' + gap y y' = 1" "gap x' xj + gap y' yj = k"
    by blast
  have "y' * w + x' < w * h" using c(1,2) by (rule idx_less)
  moreover have "manh w i (y' * w + x') = 1"
    unfolding i using c(3) by (simp add: manh_coords b c(1))
  moreover have "manh w (y' * w + x') j = k"
    unfolding j using c(4) by (simp add: manh_coords b c(1))
  ultimately show ?thesis by blast
qed

text \<open>After \<open>k\<close> passes exactly the pixels within distance \<open>k\<close> of an opaque pixel are
  opaque.\<close>

lemma length_ia_next [simp]: "length (ia_next w h pix out) = w * h"
  by (simp add: ia_next_def)

lemma length_ia_iter [simp]: "length pix = w * h \<Longrightarrow> length (ia_iter w h pix k) = w * h"
  by (cases k) simp_all

lemma cA_avg_colour [simp]: "cA (avg_colour cs) = 255"
  by (simp add: avg_colour_def)

lemma opaque_nbrs_empty:
  "opaque_nbrs w h pix i = [] \<longleftrightarrow> (\<forall>j \<in> set (nbrs4 w h i). \<not> opq pix j)"
  by (auto simp: opaque_nbrs_def filter_empty_conv opq_def)

lemma ia_fills_iff:
  "ia_fills w h pix pix i \<longleftrightarrow> \<not> opq pix i \<and> (\<exists>j \<in> set (nbrs4 w h i). opq pix j)"
  by (auto simp: ia_fills_def opaque_nbrs_empty opq_def)

lemma opq_next:
  assumes "i < w * h"
  shows "opq (ia_next w h pix pix) i \<longleftrightarrow> opq pix i \<or> (\<exists>j \<in> set (nbrs4 w h i). opq pix j)"
proof (cases "ia_fills w h pix pix i")
  case True
  then have "opq (ia_next w h pix pix) i" using assms by (simp add: opq_def ia_next_def)
  with True show ?thesis by (simp add: ia_fills_iff)
next
  case False
  then have "opq (ia_next w h pix pix) i = opq pix i" using assms by (simp add: opq_def ia_next_def)
  with False show ?thesis by (auto simp: ia_fills_iff)
qed

lemma opq_iter:
  assumes "i < w * h"
  shows "opq (ia_iter w h pix k) i \<longleftrightarrow> (\<exists>j < w * h. opq pix j \<and> manh w i j \<le> k)"
  using assms
proof (induction k arbitrary: i)
  case 0
  have "manh w i j = 0 \<longleftrightarrow> i = j" if "j < w * h" for j
  proof
    assume "manh w i j = 0"
    then have "i mod w = j mod w" "i div w = j div w" unfolding manh_def gap_def by linarith+
    then show "i = j" by (metis div_mult_mod_eq)
  qed simp
  then show ?case using 0 by auto
next
  case (Suc k)
  let ?p = "ia_iter w h pix k"
  have "opq (ia_iter w h pix (Suc k)) i \<longleftrightarrow> opq ?p i \<or> (\<exists>j \<in> set (nbrs4 w h i). opq ?p j)"
    using Suc.prems by (simp add: opq_next)
  also have "\<dots> \<longleftrightarrow> (\<exists>j < w * h. opq pix j \<and> manh w i j \<le> Suc k)"
  proof
    assume "opq ?p i \<or> (\<exists>j \<in> set (nbrs4 w h i). opq ?p j)"
    then show "\<exists>j < w * h. opq pix j \<and> manh w i j \<le> Suc k"
    proof
      assume "opq ?p i"
      then obtain j where "j < w * h" "opq pix j" "manh w i j \<le> k"
        using Suc.IH[OF Suc.prems] by blast
      then have "j < w * h \<and> opq pix j \<and> manh w i j \<le> Suc k" by simp
      then show ?thesis by blast
    next
      assume "\<exists>j \<in> set (nbrs4 w h i). opq ?p j"
      then obtain i' where i': "i' \<in> set (nbrs4 w h i)" "opq ?p i'" by blast
      then have n: "i' < w * h" "manh w i i' = 1" using nbrs4_iff[OF Suc.prems] by simp_all
      from i'(2) obtain j where j: "j < w * h" "opq pix j" "manh w i' j \<le> k"
        using Suc.IH[OF n(1)] by blast
      have "manh w i j \<le> Suc k" using manh_triangle[of w i j i'] n(2) j(3) by simp
      with j show ?thesis by blast
    qed
  next
    assume "\<exists>j < w * h. opq pix j \<and> manh w i j \<le> Suc k"
    then obtain j where j: "j < w * h" "opq pix j" "manh w i j \<le> Suc k" by blast
    show "opq ?p i \<or> (\<exists>j \<in> set (nbrs4 w h i). opq ?p j)"
    proof (cases "manh w i j \<le> k")
      case True
      with j have "opq ?p i" using Suc.IH[OF Suc.prems] by blast
      then show ?thesis ..
    next
      case False
      with j(3) have "manh w i j = Suc k" by simp
      from manh_step[OF Suc.prems j(1) this]
      obtain i' where i': "i' < w * h" "manh w i i' = 1" "manh w i' j = k" by blast
      then have "i' \<in> set (nbrs4 w h i)" using nbrs4_iff[OF Suc.prems] by simp
      moreover have "opq ?p i'" using Suc.IH[OF i'(1)] j(1,2) i'(3) by auto
      ultimately show ?thesis by blast
    qed
  qed
  finally show ?case .
qed

text \<open>The loop returns at the first \<open>k\<close> with no pixel left, having made \<open>k\<close>
  passes; that \<open>k\<close> is \<open>depth4\<close>.\<close>

lemma ia_pass_state:
  assumes "length pix = w * h"
  shows "ia_pass w h (ia_state_at w h pix k) = ia_state_at w h pix (Suc k)"
proof -
  let ?p = "ia_iter w h pix k"
  let ?N = "{i. i < w * h \<and> \<not> opq ?p i}"
  let ?F = "{i. i < w * h \<and> ia_fills w h ?p ?p i}"
  let ?N' = "{i. i < w * h \<and> \<not> opq (ia_next w h ?p ?p) i}"
  have fin: "finite ?N" by simp
  have sub: "?F \<subseteq> ?N" by (auto simp: ia_fills_iff)
  have "?N' = ?N - ?F" by (auto simp: opq_next ia_fills_iff)
  then have "card ?N' = card ?N - card ?F"
    using card_Diff_subset[of ?F ?N] sub fin by (simp add: finite_subset)
  moreover have "card ?F \<le> card ?N" using sub fin by (rule card_mono[rotated])
  ultimately have "int (card ?N) - int (card ?F) = int (card ?N')" by simp
  then show ?thesis
    using assms by (simp add: ia_state_at_def ia_pass_eq)
qed

lemma ia_loop_reaches:
  assumes "length pix = w * h"
    and "\<And>k. k < D \<Longrightarrow> 0 < st_remaining (ia_state_at w h pix k)"
    and "st_remaining (ia_state_at w h pix D) = 0" and "k \<le> D"
  shows "ia_loop w h (ia_state_at w h pix k) = Some (ia_state_at w h pix D)"
  using assms(4)
proof (induction "D - k" arbitrary: k)
  case 0
  then have "k = D" by simp
  then show ?case using assms(3) by (subst ia_loop.simps) simp
next
  case (Suc n)
  then have lt: "k < D" and n: "n = D - Suc k" and le: "Suc k \<le> D" by simp_all
  have "ia_loop w h (ia_state_at w h pix k) = ia_loop w h (ia_pass w h (ia_state_at w h pix k))"
    using assms(2)[OF lt] by (subst ia_loop.simps) simp
  also have "\<dots> = ia_loop w h (ia_state_at w h pix (Suc k))"
    by (simp only: ia_pass_state[OF assms(1)])
  also have "\<dots> = Some (ia_state_at w h pix D)" using n le by (rule Suc.hyps(1))
  finally show ?case .
qed

lemma dist4_le:
  assumes "\<exists>j < w * h. om ! j"
  shows "dist4 w h om i \<le> k \<longleftrightarrow> (\<exists>j < w * h. om ! j \<and> manh w i j \<le> k)"
proof -
  let ?A = "set (map (manh w i) (filter (\<lambda>j. om ! j) [0 ..< w * h]))"
  have ne: "?A \<noteq> {}" using assms by (auto simp: filter_empty_conv)
  have "Min ?A \<le> k \<longleftrightarrow> (\<exists>a \<in> ?A. a \<le> k)" using ne by (intro Min_le_iff) simp_all
  then show ?thesis by (auto simp: dist4_def)
qed

lemma depth4_le:
  assumes "\<exists>j < w * h. om ! j"
  shows "depth4 w h om \<le> k \<longleftrightarrow> (\<forall>i < w * h. \<exists>j < w * h. om ! j \<and> manh w i j \<le> k)"
proof -
  let ?A = "set (0 # map (dist4 w h om) (filter (\<lambda>i. \<not> om ! i) [0 ..< w * h]))"
  have "Max ?A \<le> k \<longleftrightarrow> (\<forall>a \<in> ?A. a \<le> k)" by (intro Max_le_iff) simp_all
  also have "\<dots> \<longleftrightarrow> (\<forall>i < w * h. \<not> om ! i \<longrightarrow> dist4 w h om i \<le> k)" by auto
  also have "\<dots> \<longleftrightarrow> (\<forall>i < w * h. \<exists>j < w * h. om ! j \<and> manh w i j \<le> k)"
  proof (intro iffI allI impI)
    fix i assume a: "\<forall>i < w * h. \<not> om ! i \<longrightarrow> dist4 w h om i \<le> k" and i: "i < w * h"
    show "\<exists>j < w * h. om ! j \<and> manh w i j \<le> k"
    proof (cases "om ! i")
      case True
      then have "i < w * h \<and> om ! i \<and> manh w i i \<le> k" using i by simp
      then show ?thesis by blast
    next
      case False
      with a i show ?thesis by (simp add: dist4_le[OF assms])
    qed
  next
    fix i assume "\<forall>i < w * h. \<exists>j < w * h. om ! j \<and> manh w i j \<le> k" "i < w * h"
    then show "dist4 w h om i \<le> k" by (simp add: dist4_le[OF assms])
  qed
  finally show ?thesis by (simp add: depth4_def)
qed

lemma remaining_zero_iff:
  assumes "length pix = w * h"
  shows "st_remaining (ia_state_at w h pix k) = 0 \<longleftrightarrow>
         (\<forall>i < w * h. \<exists>j < w * h. opq pix j \<and> manh w i j \<le> k)"
proof -
  have "st_remaining (ia_state_at w h pix k) = 0 \<longleftrightarrow> {i. i < w * h \<and> \<not> opq (ia_iter w h pix k) i} = {}"
    by (simp add: ia_state_at_def)
  also have "\<dots> \<longleftrightarrow> (\<forall>i < w * h. opq (ia_iter w h pix k) i)" by auto
  also have "\<dots> \<longleftrightarrow> (\<forall>i < w * h. \<exists>j < w * h. opq pix j \<and> manh w i j \<le> k)"
    by (simp add: opq_iter)
  finally show ?thesis .
qed

lemma ia_loop_depth:
  assumes "length pix = w * h" "\<exists>j < w * h. opq pix j"
  shows "ia_loop w h (ia_state_at w h pix 0) =
         Some (ia_state_at w h pix (depth4 w h (map (opq pix) [0 ..< w * h])))"
proof -
  let ?om = "map (opq pix) [0 ..< w * h]"
  let ?D = "depth4 w h ?om"
  have om: "\<exists>j < w * h. ?om ! j" using assms(2) by auto
  have "(\<exists>j < w * h. ?om ! j \<and> manh w i j \<le> k) = (\<exists>j < w * h. opq pix j \<and> manh w i j \<le> k)"
    for i k by (simp cong: conj_cong)
  then have cov: "st_remaining (ia_state_at w h pix k) = 0 \<longleftrightarrow> ?D \<le> k" for k
    unfolding remaining_zero_iff[OF assms(1)] depth4_le[OF om] by simp
  have nonneg: "0 \<le> st_remaining (ia_state_at w h pix k)" for k
    by (simp add: ia_state_at_def)
  show ?thesis
  proof (rule ia_loop_reaches[OF assms(1)])
    fix k assume "k < ?D"
    then have "st_remaining (ia_state_at w h pix k) \<noteq> 0" using cov[of k] by simp
    with nonneg[of k] show "0 < st_remaining (ia_state_at w h pix k)" by simp
  next
    show "st_remaining (ia_state_at w h pix ?D) = 0" using cov[of ?D] by simp
  qed simp
qed

text \<open>The whole function, and the alpha values whose high byte is 255.\<close>

lemma ia_start_eq:
  "ia_start input = ia_state_at (Dx input) (Dy input) (ia_copy input) 0"
  by (simp add: ia_start_def ia_state_at_def ia_count_eq Let_def)

lemma length_ia_copy [simp]: "length (ia_copy input) = Dx input * Dy input"
  by (simp add: ia_copy_eq)

lemma gimp_run_eq:
  assumes "\<exists>j < Dx input * Dy input. opq (ia_copy input) j"
  shows "gimp_run input =
         Some (ia_state_at (Dx input) (Dy input) (ia_copy input)
                 (depth4 (Dx input) (Dy input)
                    (map (opq (ia_copy input)) [0 ..< Dx input * Dy input])))"
  unfolding gimp_run_def ia_start_eq using assms by (intro ia_loop_depth) simp_all

lemma high_byte_255:
  assumes "a = 0xffff \<or> a < 0xff00"
  shows "(ucast (drop_bit 8 (a :: uint32)) :: uint8) = 255 \<longleftrightarrow> a = 0xffff"
proof (cases "a = 0xffff")
  case True
  then show ?thesis by simp
next
  case False
  with assms have "a < 0xff00" by simp
  then have "unat a < 65280" by (simp add: word_less_nat_alt)
  then have "unat a div 256 < 255" by simp
  moreover have "unat (drop_bit 8 a) = unat a div 256"
    by (simp only: unat_drop_bit_eq) (simp add: drop_bit_eq_div)
  then have "unat (ucast (drop_bit 8 a) :: uint8) = (unat a div 256) mod 256"
    by (simp only: unsigned_ucast_eq) (simp add: take_bit_eq_mod)
  ultimately have "unat (ucast (drop_bit 8 a) :: uint8) \<noteq> unat (255 :: uint8)" by simp
  then have "(ucast (drop_bit 8 a) :: uint8) \<noteq> 255" by (simp only: word_unat_eq_iff not_False_eq_True)
  with False show ?thesis by simp
qed

text \<open>The states of the loop are the rasters \<open>ia_iter\<close>; in the 8-bit copy a pixel is opaque
  when the high byte of its 16-bit alpha is \<open>0xff\<close>.\<close>

lemma ia_pass_funpow:
  "(ia_pass (Dx input) (Dy input) ^^ k) (ia_start input) =
   ia_state_at (Dx input) (Dy input) (ia_copy input) k"
  by (induction k) (simp_all add: ia_start_eq ia_pass_state)

lemma opq_ia_copy:
  assumes "i < Dx input * Dy input"
    and "opaque_in input i \<or> c_a (in_px input i) < 0xff00"
  shows "opq (ia_copy input) i = opaque_in input i"
  using assms high_byte_255[of "c_a (in_px input i)"]
  by (simp add: opq_def ia_copy_eq rgbaModel_def opaque_in_def)

text \<open>
  \<open>depth4\<close> is the largest distance, in steps to the left, right, up or down (\<open>manh\<close>),
  from a transparent pixel to the nearest opaque one.  For an input with an opaque pixel and
  without an alpha between \<open>0xff00\<close> and \<open>0xfffe\<close> (every 8-bit source), the loop of
  \<open>process_gimp_alg\<close> returns after exactly \<open>depth4\<close> passes, and after \<open>k\<close> passes of
  the code the opaque pixels of \<open>output\<close> are exactly those within distance \<open>k\<close> of a
  pixel that is opaque in the input.
\<close>

theorem ia_passes_equal_depth:
  assumes "\<exists>j < Dx input * Dy input. opaque_in input j"
    and "\<forall>i < Dx input * Dy input. opaque_in input i \<or> c_a (in_px input i) < 0xff00"
  shows "map_option st_passes (gimp_run input) =
         Some (int (depth4 (Dx input) (Dy input) (mask_of input))) \<and>
         (\<forall>k i. i < Dx input * Dy input \<longrightarrow>
            opq (st_output ((ia_pass (Dx input) (Dy input) ^^ k) (ia_start input))) i =
            (\<exists>j < Dx input * Dy input. opaque_in input j \<and> manh (Dx input) i j \<le> k))"
proof (intro conjI allI impI)
  have o: "opq (ia_copy input) i = opaque_in input i" if "i < Dx input * Dy input" for i
    using that assms(2) by (intro opq_ia_copy) simp_all
  then have m: "map (opq (ia_copy input)) [0 ..< Dx input * Dy input] = mask_of input"
    by (simp add: mask_of_def)
  have "\<exists>j < Dx input * Dy input. opq (ia_copy input) j" using assms(1) o by auto
  from gimp_run_eq[OF this]
  show "map_option st_passes (gimp_run input) =
        Some (int (depth4 (Dx input) (Dy input) (mask_of input)))"
    by (simp add: m ia_state_at_def)
  fix k i assume i: "i < Dx input * Dy input"
  have "opq (st_output ((ia_pass (Dx input) (Dy input) ^^ k) (ia_start input))) i =
        opq (ia_iter (Dx input) (Dy input) (ia_copy input) k) i"
    by (simp add: ia_pass_funpow ia_state_at_def)
  also have "\<dots> = (\<exists>j < Dx input * Dy input. opq (ia_copy input) j \<and> manh (Dx input) i j \<le> k)"
    by (rule opq_iter[OF i])
  also have "\<dots> = (\<exists>j < Dx input * Dy input. opaque_in input j \<and> manh (Dx input) i j \<le> k)"
    using o by (simp cong: conj_cong)
  finally show "opq (st_output ((ia_pass (Dx input) (Dy input) ^^ k) (ia_start input))) i =
        (\<exists>j < Dx input * Dy input. opaque_in input j \<and> manh (Dx input) i j \<le> k)" .
qed

text \<open>The theorem at a row of three pixels, the first opaque: two passes, and the last pixel
  is filled by the second.\<close>

theorem ia_passes_equal_depth_example:
  "opaque_in row3 0 \<and> c_a (in_px row3 1) < 0xff00 \<and> c_a (in_px row3 2) < 0xff00 \<and>
   Dx row3 * Dy row3 = 3 \<and>
   depth4 (Dx row3) (Dy row3) (mask_of row3) = 2 \<and>
   map_option st_passes (gimp_run row3) = Some 2 \<and>
   \<not> opq (st_output ((ia_pass (Dx row3) (Dy row3) ^^ 1) (ia_start row3))) 2 \<and>
   opq (st_output ((ia_pass (Dx row3) (Dy row3) ^^ 2) (ia_start row3))) 2"
proof -
  have px: "opaque_in row3 0" "c_a (in_px row3 1) < 0xff00" "c_a (in_px row3 2) < 0xff00"
    by code_simp+
  have n: "Dx row3 * Dy row3 = 3" by code_simp
  have d: "depth4 (Dx row3) (Dy row3) (mask_of row3) = 2" by code_simp
  have "(0::nat) < Dx row3 * Dy row3 \<and> opaque_in row3 0" using px(1) n by simp
  then have h1: "\<exists>j < Dx row3 * Dy row3. opaque_in row3 j" by blast
  have h2: "\<forall>i < Dx row3 * Dy row3. opaque_in row3 i \<or> c_a (in_px row3 i) < 0xff00"
  proof (intro allI impI)
    fix i assume "i < Dx row3 * Dy row3"
    then have "i = 0 \<or> i = 1 \<or> i = 2" unfolding n by linarith
    then show "opaque_in row3 i \<or> c_a (in_px row3 i) < 0xff00" using px by blast
  qed
  note t = ia_passes_equal_depth[OF h1 h2]
  from t have "map_option st_passes (gimp_run row3) = Some 2"
    unfolding d by simp
  moreover have "\<not> opq (st_output ((ia_pass (Dx row3) (Dy row3) ^^ 1) (ia_start row3))) 2"
    "opq (st_output ((ia_pass (Dx row3) (Dy row3) ^^ 2) (ia_start row3))) 2"
    by code_simp+
  ultimately show ?thesis using px n d by simp
qed

text \<open>On the raster \<open>near_opaque\<close> the two algorithms classify the second pixel differently:
  \<open>process_paint_net_alg\<close> tests the 16-bit alpha (\<open>a == 0xffff\<close>) and fills the pixel,
  \<open>process_gimp_alg\<close> tests the alpha of its 8-bit copy and keeps it.\<close>

lemma near_opaque_sibling:
  "map_option (\<lambda>out. out ! 1) (process_gimp_alg near_opaque) = Some (RGBA 0 0 0 255) \<and>
   map_option (\<lambda>out. out ! 1) (process_paint_net_alg 1 near_opaque) = Some (RGBA 255 255 255 255)"
  by code_simp

text \<open>
  Claim C8 asks that the averaging loop terminates after exactly \<open>D\<close> passes, where \<open>D\<close>
  is the largest 4-connected distance from a transparent pixel of the input to the nearest
  opaque one.  In \<open>near_opaque\<close> the second pixel has alpha \<open>0xff80\<close>: it is transparent,
  at distance 1 from the opaque first pixel, so \<open>D = 1\<close>.  \<open>process_gimp_alg\<close> counts the
  transparent pixels on its 8-bit copy, where that pixel has alpha 255, finds none and
  makes no pass.
\<close>

theorem C8_near_opaque_alpha:
  "opaque_in near_opaque 0 \<and> \<not> opaque_in near_opaque 1 \<and>
   depth4 (Dx near_opaque) (Dy near_opaque) (mask_of near_opaque) = 1 \<and>
   map_option st_passes (gimp_run near_opaque) = Some 0"
  by code_simp

section \<open>One transparent pixel among pixels of one colour\<close>

text \<open>Whatever the step of a pass, the scan of the eight offsets never raises the best
  distance, and a candidate it accepts is the stored source of an in-bounds neighbour.\<close>

lemma jf_scan_le: "fst (jf_scan w h nc x y nb b) \<le> fst b"
  by (simp add: jf_scan_def Let_def)

lemma jf_scan_fold_le: "fst (fold (jf_scan w h nc x y) nbs b) \<le> fst b"
proof (induction nbs arbitrary: b)
  case Nil
  then show ?case by simp
next
  case (Cons nb nbs)
  have "fst (fold (jf_scan w h nc x y) nbs (jf_scan w h nc x y nb b)) \<le> fst (jf_scan w h nc x y nb b)"
    by (rule Cons.IH)
  also have "\<dots> \<le> fst b" by (rule jf_scan_le)
  finally show ?case by simp
qed

lemma jf_scan_candidate:
  assumes "0 \<le> int x + fst nb" "int x + fst nb < int w" "0 \<le> int y + snd nb" "int y + snd nb < int h"
    and "pt_x (nc ! (nat (int y + snd nb) * w + nat (int x + fst nb))) \<noteq> - 1"
    and "pt_y (nc ! (nat (int y + snd nb) * w + nat (int x + fst nb))) \<noteq> - 1"
  shows "fst (jf_scan w h nc x y nb b) \<le> sqd x y (nc ! (nat (int y + snd nb) * w + nat (int x + fst nb)))"
  using assms by (simp add: jf_scan_def Let_def sqd_def)

lemma jf_scan_fold_candidate:
  assumes "nb \<in> set nbs"
    and "0 \<le> int x + fst nb" "int x + fst nb < int w" "0 \<le> int y + snd nb" "int y + snd nb < int h"
    and "pt_x (nc ! (nat (int y + snd nb) * w + nat (int x + fst nb))) \<noteq> - 1"
    and "pt_y (nc ! (nat (int y + snd nb) * w + nat (int x + fst nb))) \<noteq> - 1"
  shows "fst (fold (jf_scan w h nc x y) nbs b)
         \<le> sqd x y (nc ! (nat (int y + snd nb) * w + nat (int x + fst nb)))"
  using assms(1)
proof (induction nbs arbitrary: b)
  case Nil
  then show ?case by simp
next
  case (Cons n nbs)
  show ?case
  proof (cases "n = nb")
    case True
    have "fst (fold (jf_scan w h nc x y) nbs (jf_scan w h nc x y nb b)) \<le> fst (jf_scan w h nc x y nb b)"
      by (rule jf_scan_fold_le)
    also have "\<dots> \<le> sqd x y (nc ! (nat (int y + snd nb) * w + nat (int x + fst nb)))"
      by (rule jf_scan_candidate[OF assms(2-7)])
    finally show ?thesis using True by simp
  next
    case False
    with Cons.prems have "nb \<in> set nbs" by simp
    then show ?thesis using Cons.IH by simp
  qed
qed

text \<open>Good entries stay good: a pass only ever copies the source of another entry and
  recomputes its distance.\<close>

lemma jf_scan_good:
  assumes "jf_inv w h om B (dc, nc)" "x < w"
  shows "jf_scan w h nc x y nb b = b \<or> jf_good w h om (y * w + x) (jf_scan w h nc x y nb b)"
proof (cases "jf_scan w h nc x y nb b = b")
  case True
  then show ?thesis ..
next
  case False
  let ?k = "nat (int y + snd nb) * w + nat (int x + fst nb)"
  from False have inb: "0 \<le> int x + fst nb" "int x + fst nb < int w" "0 \<le> int y + snd nb" "int y + snd nb < int h"
    and res: "pt_x (nc ! ?k) \<noteq> - 1"
    and r: "jf_scan w h nc x y nb b = (sqd x y (nc ! ?k), nc ! ?k)"
    by (auto simp: jf_scan_def Let_def sqd_def split: if_splits)
  have k: "?k < w * h" using inb by (intro nbr_idx_less) simp_all
  from jf_invD(1)[OF assms(1) k] res obtain j where "j < w * h" "om ! j" "nc ! ?k = pt_of w j"
    by auto
  then have "jf_good w h om (y * w + x) (jf_scan w h nc x y nb b)"
    unfolding r jf_good_def using assms(2) by auto
  then show ?thesis ..
qed

lemma jf_scan_fold_good:
  assumes "jf_inv w h om B (dc, nc)" "x < w"
  shows "fold (jf_scan w h nc x y) nbs b = b \<or>
         jf_good w h om (y * w + x) (fold (jf_scan w h nc x y) nbs b)"
proof (induction nbs arbitrary: b)
  case Nil
  then show ?case by simp
next
  case (Cons nb nbs)
  let ?b = "jf_scan w h nc x y nb b"
  from Cons.IH[of ?b] show ?case
  proof
    assume "fold (jf_scan w h nc x y) nbs ?b = ?b"
    with jf_scan_good[OF assms, of y nb b] show ?thesis by auto
  next
    assume "jf_good w h om (y * w + x) (fold (jf_scan w h nc x y) nbs ?b)"
    then show ?thesis by simp
  qed
qed

text \<open>In a raster of at least two pixels every pixel has a pixel beside, above or below
  it.\<close>

lemma exists_nbr:
  assumes "p < w * h" "2 \<le> w * h"
  shows "\<exists>j < w * h. manh w p j = 1"
proof -
  define x y where "x = p mod w" and "y = p div w"
  have b: "x < w" "y < h" using assms(1) by (simp_all add: x_def y_def mod_less_width div_less_height)
  have p: "p = y * w + x" by (simp add: x_def y_def)
  have "\<exists>x' y'. x' < w \<and> y' < h \<and> gap x x' + gap y y' = 1"
  proof (cases "2 \<le> w")
    case True
    show ?thesis
    proof (cases "x + 1 < w")
      case T: True
      then have "x + 1 < w \<and> y < h \<and> gap x (x + 1) + gap y y = 1" using b by (simp add: gap_def)
      then show ?thesis by blast
    next
      case False
      with True b have "x - 1 < w \<and> y < h \<and> gap x (x - 1) + gap y y = 1" by (simp add: gap_def)
      then show ?thesis by blast
    qed
  next
    case False
    with b have w: "w = 1" by simp
    with assms(2) have h: "2 \<le> h" by simp
    show ?thesis
    proof (cases "y + 1 < h")
      case True
      then have "x < w \<and> y + 1 < h \<and> gap x x + gap y (y + 1) = 1" using b by (simp add: gap_def)
      then show ?thesis by blast
    next
      case F: False
      with h b have "x < w \<and> y - 1 < h \<and> gap x x + gap y (y - 1) = 1" by (simp add: gap_def)
      then show ?thesis by blast
    qed
  qed
  then obtain x' y' where c: "x' < w" "y' < h" "gap x x' + gap y y' = 1" by blast
  have "y' * w + x' < w * h" using c(1,2) by (rule idx_less)
  moreover have "manh w p (y' * w + x') = 1" unfolding p using c(3) by (simp add: manh_coords b c(1))
  ultimately show ?thesis by blast
qed

lemma gap_abs: "int (gap a b) = \<bar>int a - int b\<bar>"
  by (simp add: gap_def)

lemma manh_one_offset:
  assumes "manh w p j = 1"
  shows "(int (j mod w) - int (p mod w), int (j div w) - int (p div w)) \<in> set (neighbours 1)"
proof -
  have "gap (p mod w) (j mod w) + gap (p div w) (j div w) = 1" using assms by (simp add: manh_def)
  from gap_one_cases[OF this] show ?thesis by (auto simp: neighbours_def)
qed

lemma sqd_pt_of: "sqd x y (pt_of w j) =
    (int x - int (j mod w)) * (int x - int (j mod w)) + (int y - int (j div w)) * (int y - int (j div w))"
  by (simp add: sqd_def pt_of_def)

lemma manh_one_sqd:
  assumes "manh w p j = 1"
  shows "sqd (p mod w) (p div w) (pt_of w j) = 1"
proof -
  define dx dy where "dx = int (j mod w) - int (p mod w)" and "dy = int (j div w) - int (p div w)"
  have "gap (p mod w) (j mod w) + gap (p div w) (j div w) = 1" using assms by (simp add: manh_def)
  from gap_one_cases[OF this] have "(dx, dy) \<in> {(- 1, 0), (1, 0), (0, - 1), (0, 1)}"
    by (simp add: dx_def dy_def)
  then have "(- dx) * (- dx) + (- dy) * (- dy) = 1" by auto
  moreover have "int (p mod w) - int (j mod w) = - dx" "int (p div w) - int (j div w) = - dy"
    by (simp_all add: dx_def dy_def)
  ultimately show ?thesis unfolding sqd_pt_of by (simp only:)
qed

lemma square_small:
  fixes a :: int
  assumes "a * a + b * b \<le> 2"
  shows "\<bar>a\<bar> \<le> 1"
proof (rule ccontr)
  assume "\<not> \<bar>a\<bar> \<le> 1"
  then have "2 \<le> \<bar>a\<bar>" by simp
  then have "2 * 2 \<le> \<bar>a\<bar> * \<bar>a\<bar>" by (intro mult_mono) simp_all
  then have "4 \<le> a * a" by (simp add: abs_mult_self_eq)
  moreover have "0 \<le> b * b" by simp
  ultimately show False using assms by linarith
qed

lemma sqd_near:
  assumes "sqd (p mod w) (p div w) (pt_of w j) \<le> 2"
  shows "near w 1 p j"
proof -
  let ?a = "int (p mod w) - int (j mod w)" and ?b = "int (p div w) - int (j div w)"
  have ab: "?a * ?a + ?b * ?b \<le> 2" using assms by (simp add: sqd_pt_of)
  then have ba: "?b * ?b + ?a * ?a \<le> 2" by simp
  have "\<bar>?a\<bar> \<le> 1" using ab by (rule square_small)
  moreover have "\<bar>?b\<bar> \<le> 1" using ba by (rule square_small)
  ultimately show ?thesis by (simp add: near_def)
qed

text \<open>The first pass has step 1: it gives the one transparent pixel an opaque source at
  squared distance at most 2; later passes keep the distance at most 2.\<close>

lemma jf_close_first:
  assumes "jf_inv w h om B g" "p < w * h" "j < w * h" "manh w p j = 1"
    and "snd g ! j = pt_of w j" "1 < fst g ! p"
  shows "jf_close w h om p (jf_next w h 1 g)"
proof -
  let ?x = "p mod w" and ?y = "p div w"
  let ?nb = "(int (j mod w) - int ?x, int (j div w) - int ?y)"
  let ?b = "(fst g ! p, snd g ! p)"
  let ?r = "fold (jf_scan w h (snd g) ?x ?y) (neighbours (int (1::nat))) ?b"
  have xw: "?x < w" using assms(2) by (rule mod_less_width)
  have jb: "j mod w < w" "j div w < h" using assms(3) by (simp_all add: mod_less_width div_less_height)
  have nb: "?nb \<in> set (neighbours (int (1::nat)))" using manh_one_offset[OF assms(4)] by simp
  have k: "nat (int ?y + snd ?nb) * w + nat (int ?x + fst ?nb) = j" by simp
  have "fst ?r \<le> sqd ?x ?y (snd g ! (nat (int ?y + snd ?nb) * w + nat (int ?x + fst ?nb)))"
    by (rule jf_scan_fold_candidate[OF nb]) (use jb in \<open>simp_all add: assms(5) pt_of_def\<close>)
  then have le: "fst ?r \<le> 1" unfolding k assms(5) manh_one_sqd[OF assms(4)] .
  have g: "g = (fst g, snd g)" by simp
  have "jf_inv w h om B (fst g, snd g)" using assms(1) by simp
  from jf_scan_fold_good[OF this xw, of ?y "neighbours (int (1::nat))" ?b]
  have "?r = ?b \<or> jf_good w h om p ?r" by simp
  moreover have "?r \<noteq> ?b" using le assms(6) by auto
  ultimately have good: "jf_good w h om p ?r" by simp
  have nth: "fst (jf_next w h 1 g) ! p = fst ?r" "snd (jf_next w h 1 g) ! p = snd ?r"
    using assms(2) by (simp_all add: jf_next_def jf_best_def)
  show ?thesis unfolding jf_close_def nth using good le by simp
qed

lemma jf_close_next:
  assumes "jf_inv w h om B g" "p < w * h" "jf_close w h om p g"
  shows "jf_close w h om p (jf_next w h step g)"
proof -
  let ?x = "p mod w" and ?y = "p div w"
  let ?b = "(fst g ! p, snd g ! p)"
  let ?r = "fold (jf_scan w h (snd g) ?x ?y) (neighbours (int step)) ?b"
  have xw: "?x < w" using assms(2) by (rule mod_less_width)
  have "jf_inv w h om B (fst g, snd g)" using assms(1) by simp
  from jf_scan_fold_good[OF this xw, of ?y "neighbours (int step)" ?b]
  have "?r = ?b \<or> jf_good w h om p ?r" by simp
  moreover have "fst ?r \<le> fst ?b" by (rule jf_scan_fold_le)
  ultimately have "jf_good w h om p ?r \<and> fst ?r \<le> 2"
    using assms(3) unfolding jf_close_def by auto
  moreover have "fst (jf_next w h step g) ! p = fst ?r" "snd (jf_next w h step g) ! p = snd ?r"
    using assms(2) by (simp_all add: jf_next_def jf_best_def)
  ultimately show ?thesis unfolding jf_close_def by simp
qed

lemma jf_close_grids:
  assumes "p < w * h" "2 \<le> w * h" "\<not> om ! p" "\<forall>i < w * h. i \<noteq> p \<longrightarrow> om ! i"
  shows "jf_close w h om p (jf_grids w h om (Suc k))"
proof (induction k)
  case 0
  from exists_nbr[OF assms(1,2)] obtain j where j: "j < w * h" "manh w p j = 1" by blast
  then have "j \<noteq> p" by auto
  with assms(4) j(1) have oj: "om ! j" by simp
  have "0 < w" "0 < h" using assms(1) by (cases w; cases h; simp)+
  then have "1 * 1 + 1 * 1 \<le> w * w + h * h" by (intro add_mono mult_mono) simp_all
  then have "int (1 * 1 + 1 * 1) \<le> int (w * w + h * h)" by (simp only: of_nat_le_iff)
  then have "1 < int (w * w + h * h)" by simp
  then have "1 < fst (jf_start w h om) ! p" using assms(1,3) by (simp add: jf_start_def)
  moreover have "snd (jf_start w h om) ! j = pt_of w j" using j(1) oj by (simp add: jf_start_def pt_of_def)
  ultimately have "jf_close w h om p (jf_next w h 1 (jf_start w h om))"
    using jf_close_first[OF jf_inv_start assms(1) j] by simp
  then show ?case by simp
next
  case (Suc k)
  show ?case
    using jf_close_next[OF jf_inv_grids assms(1) Suc.IH, of "Suc (Suc k)"] by simp
qed

text \<open>So the source that \<open>jumpFlood\<close> returns for the transparent pixel is an opaque
  pixel in the square of side 3 around it.\<close>

lemma jf_isolated:
  assumes "p < w * h" "2 \<le> w * h" "\<not> om ! p" "\<forall>i < w * h. i \<noteq> p \<longrightarrow> om ! i"
  shows "\<exists>j < w * h. j \<noteq> p \<and> near w 1 p j \<and> snd (jf_grids w h om (Suc k)) ! p = pt_of w j"
proof -
  from jf_close_grids[OF assms, of k]
  obtain j where j: "j < w * h" "om ! j" "snd (jf_grids w h om (Suc k)) ! p = pt_of w j"
    "fst (jf_grids w h om (Suc k)) ! p = sqd (p mod w) (p div w) (pt_of w j)"
    "fst (jf_grids w h om (Suc k)) ! p \<le> 2"
    unfolding jf_close_def jf_good_def by auto
  have "near w 1 p j" using j(4,5) by (intro sqd_near) simp
  moreover have "j \<noteq> p" using j(2) assms(3) by auto
  ultimately show ?thesis using j(1,3) by blast
qed

text \<open>The truncated mean of equal bytes is that byte: the average of up to four
  neighbours of one colour is that colour.\<close>

lemma mean_byte_same:
  assumes "cs \<noteq> []" "\<forall>c \<in> set cs. f c = v"
  shows "mean_byte (map (\<lambda>c. 257 * unat (f c)) cs) = v"
proof -
  have "map (\<lambda>c. 257 * unat (f c)) cs = replicate (length cs) (257 * unat v)"
    using assms(2) by (simp add: map_replicate_const[symmetric] cong: map_cong)
  then have "sum_list (map (\<lambda>c. 257 * unat (f c)) cs) = length cs * (257 * unat v)"
    by (simp add: sum_list_replicate)
  moreover have "0 < length cs" using assms(1) by simp
  ultimately have "sum_list (map (\<lambda>c. 257 * unat (f c)) cs) div length cs = 257 * unat v"
    by simp
  moreover have "257 * unat v div 256 = unat v" using unat_byte[of v] by simp
  ultimately show ?thesis by (simp add: mean_byte_def)
qed

lemma avg_colour_same:
  assumes "cs \<noteq> []" "\<forall>c \<in> set cs. c = C"
  shows "avg_colour cs = RGBA (cR C) (cG C) (cB C) 255"
  using assms by (simp add: avg_colour_def mean_byte_same)

lemma manh_one_near: "manh w p j = 1 \<Longrightarrow> near w 1 p j"
proof -
  assume "manh w p j = 1"
  then have "gap (p mod w) (j mod w) \<le> 1" "gap (p div w) (j div w) \<le> 1"
    by (simp_all add: manh_def)
  then have "int (gap (p mod w) (j mod w)) \<le> 1" "int (gap (p div w) (j div w)) \<le> 1"
    by simp_all
  then show ?thesis unfolding gap_abs by (simp add: near_def)
qed

text \<open>The averaging loop makes one pass and gives the pixel the colour of the pixels
  around it.\<close>

lemma ia_isolated:
  assumes "p < w * h" "2 \<le> w * h" "length pix = w * h"
    and "\<not> opq pix p" "\<forall>i < w * h. i \<noteq> p \<longrightarrow> opq pix i"
    and "\<forall>j < w * h. j \<noteq> p \<and> near w 1 p j \<longrightarrow> pix ! j = C"
  shows "ia_loop w h (ia_state_at w h pix 0) = Some (ia_state_at w h pix 1)"
    and "ia_iter w h pix 1 ! p = RGBA (cR C) (cG C) (cB C) 255"
proof -
  from exists_nbr[OF assms(1,2)] obtain j where j: "j < w * h" "manh w p j = 1" by blast
  then have jp: "j \<noteq> p" by auto
  with assms(5) j(1) have oj: "opq pix j" by simp
  have cover: "\<forall>i < w * h. \<exists>j < w * h. opq pix j \<and> manh w i j \<le> 1"
  proof (intro allI impI)
    fix i assume i: "i < w * h"
    show "\<exists>j < w * h. opq pix j \<and> manh w i j \<le> 1"
    proof (cases "i = p")
      case True
      with j oj have "j < w * h \<and> opq pix j \<and> manh w i j \<le> 1" by simp
      then show ?thesis by blast
    next
      case False
      with assms(5) i have "i < w * h \<and> opq pix i \<and> manh w i i \<le> 1" by simp
      then show ?thesis by blast
    qed
  qed
  have r1: "st_remaining (ia_state_at w h pix 1) = 0"
    using cover by (simp only: remaining_zero_iff[OF assms(3)])
  have "\<not> (\<exists>j < w * h. opq pix j \<and> manh w p j \<le> 0)"
  proof
    assume "\<exists>j < w * h. opq pix j \<and> manh w p j \<le> 0"
    then obtain k where k: "k < w * h" "opq pix k" "manh w p k = 0" by auto
    then have "p mod w = k mod w" "p div w = k div w" unfolding manh_def gap_def by linarith+
    then have "p = k" by (metis div_mult_mod_eq)
    with k(2) assms(4) show False by simp
  qed
  then have "st_remaining (ia_state_at w h pix 0) \<noteq> 0"
    using assms(1) by (auto simp only: remaining_zero_iff[OF assms(3)])
  moreover have "0 \<le> st_remaining (ia_state_at w h pix 0)" by (simp add: ia_state_at_def)
  ultimately have r0: "0 < st_remaining (ia_state_at w h pix 0)" by simp
  show "ia_loop w h (ia_state_at w h pix 0) = Some (ia_state_at w h pix 1)"
  proof (rule ia_loop_reaches[OF assms(3)])
    fix k :: nat assume "k < 1"
    then show "0 < st_remaining (ia_state_at w h pix k)" using r0 by simp
  next
    show "st_remaining (ia_state_at w h pix 1) = 0" by (rule r1)
  qed simp
  have nb: "nbrs4 w h p \<noteq> []" using j nbrs4_iff[OF assms(1), of j] by auto
  have all: "c = C" if "c \<in> set (opaque_nbrs w h pix p)" for c
  proof -
    from that obtain k where k: "k \<in> set (nbrs4 w h p)" "c = pix ! k"
      by (auto simp: opaque_nbrs_def)
    then have kk: "k < w * h" "manh w p k = 1" using nbrs4_iff[OF assms(1)] by simp_all
    have "near w 1 p k" using kk(2) by (rule manh_one_near)
    moreover have "k \<noteq> p" using kk(2) by auto
    ultimately show ?thesis using assms(6) k(2) kk(1) by simp
  qed
  have "pix ! j \<in> set (opaque_nbrs w h pix p)"
    using j oj nbrs4_iff[OF assms(1), of j] by (simp add: opaque_nbrs_def opq_def)
  then have ne: "opaque_nbrs w h pix p \<noteq> []" by auto
  then have "ia_fills w h pix pix p" using assms(4) by (simp add: ia_fills_def opq_def)
  then have "ia_iter w h pix 1 ! p = avg_colour (opaque_nbrs w h pix p)"
    using assms(1) by (simp add: ia_next_def)
  also have "\<dots> = RGBA (cR C) (cG C) (cB C) 255"
    using ne all by (intro avg_colour_same) simp_all
  finally show "ia_iter w h pix 1 ! p = RGBA (cR C) (cG C) (cB C) 255" .
qed

text \<open>
  Let the raster have at least two pixels, a single pixel \<open>p\<close> that is not opaque, whose
  16-bit alpha is below \<open>0xff00\<close>, and let every other pixel in the square of side 3
  around \<open>p\<close> have the colour \<open>c\<close>.  Then \<open>process_gimp_alg\<close> returns,
  \<open>process_paint_net_alg\<close> with at most \<open>height + 1\<close> workers returns, and both give
  \<open>p\<close> the same colour: the high bytes of \<open>c\<close> with alpha 255.
\<close>

theorem isolated_same_fill:
  assumes "0 < numCpu" "numCpu \<le> Suc (Dy input)"
    and "p < Dx input * Dy input" "2 \<le> Dx input * Dy input"
    and "c_a (in_px input p) < 0xff00"
    and "\<forall>i < Dx input * Dy input. i \<noteq> p \<longrightarrow> opaque_in input i"
    and "\<forall>j < Dx input * Dy input. j \<noteq> p \<and> near (Dx input) 1 p j \<longrightarrow> in_px input j = c"
  shows "\<exists>out1 out2. process_gimp_alg input = Some out1 \<and>
                      process_paint_net_alg numCpu input = Some out2 \<and>
                      out1 ! p = out2 ! p \<and>
                      out2 ! p = RGBA (ucast (drop_bit 8 (c_r c))) (ucast (drop_bit 8 (c_g c)))
                                      (ucast (drop_bit 8 (c_b c))) 255"
proof -
  let ?w = "Dx input" and ?h = "Dy input"
  let ?pix = "ia_copy input"
  let ?C = "rgbaModel c"
  have tp: "\<not> opaque_in input p" using assms(5) by (auto simp: opaque_in_def)
  have o: "opq ?pix i = opaque_in input i" if "i < ?w * ?h" for i
  proof -
    have "opaque_in input i \<or> c_a (in_px input i) < 0xff00"
      using assms(5,6) that by (cases "i = p") simp_all
    then show ?thesis
      using that high_byte_255[of "c_a (in_px input i)"]
      by (simp add: opq_def ia_copy_eq rgbaModel_def opaque_in_def)
  qed
  have ia1: "\<not> opq ?pix p" using o[OF assms(3)] tp by simp
  have ia2: "\<forall>i < ?w * ?h. i \<noteq> p \<longrightarrow> opq ?pix i" using o assms(6) by simp
  have ia3: "\<forall>j < ?w * ?h. j \<noteq> p \<and> near ?w 1 p j \<longrightarrow> ?pix ! j = ?C"
    using assms(7) by (simp add: ia_copy_eq)
  note ia = ia_isolated[OF assms(3,4) _ ia1 ia2 ia3]
  have g: "gimp_run input = Some (ia_state_at ?w ?h ?pix 1)"
    unfolding gimp_run_def ia_start_eq by (rule ia(1)) simp
  then have out1: "process_gimp_alg input = Some (ia_iter ?w ?h ?pix 1)"
    by (simp add: process_gimp_alg_def ia_state_at_def)
  have p1: "ia_iter ?w ?h ?pix 1 ! p = RGBA (cR ?C) (cG ?C) (cB ?C) 255"
    by (rule ia(2)) simp
  let ?om = "mask_of input"
  let ?n = "snd (jf_grids ?w ?h ?om (maxSteps ?w ?h - 1))"
  have jf: "jumpFlood numCpu ?w ?h ?om = Some ?n"
    by (rule jumpFlood_ok[OF assms(1,2)]) simp
  then have out2: "process_paint_net_alg numCpu input = Some (map (pn_pixel input ?n) [0 ..< ?w * ?h])"
    by (simp add: process_paint_net_alg_eq[OF assms(1)])
  have "2 \<le> max ?w ?h"
  proof (rule ccontr)
    assume "\<not> 2 \<le> max ?w ?h"
    then have "?w \<le> 1" "?h \<le> 1" by simp_all
    then have "?w * ?h \<le> 1 * 1" by (rule mult_le_mono)
    with assms(4) show False by simp
  qed
  then have "0 < clog2 (max ?w ?h)" by (rule clog2_pos)
  then obtain k where k: "maxSteps ?w ?h - 1 = Suc k"
    by (cases "clog2 (max ?w ?h)") (simp_all add: maxSteps_def)
  have "\<exists>j < ?w * ?h. j \<noteq> p \<and> near ?w 1 p j \<and> snd (jf_grids ?w ?h ?om (Suc k)) ! p = pt_of ?w j"
    by (rule jf_isolated[OF assms(3,4)]) (use assms(3,6) tp in \<open>simp_all add: nth_mask_of\<close>)
  then obtain j where j: "j < ?w * ?h" "j \<noteq> p" "near ?w 1 p j" "?n ! p = pt_of ?w j"
    unfolding k by blast
  have cj: "in_px input j = c" using assms(7) j(1,2,3) by simp
  have "pn_pixel input ?n p = RGBA (ucast (drop_bit 8 (c_r c))) (ucast (drop_bit 8 (c_g c)))
                                   (ucast (drop_bit 8 (c_b c))) 255"
    using tp cj[symmetric] unfolding pn_pixel_def j(4)
    by (simp add: Let_def opaque_in_def pt_of_def in_px_def)
  then have p2: "map (pn_pixel input ?n) [0 ..< ?w * ?h] ! p =
      RGBA (ucast (drop_bit 8 (c_r c))) (ucast (drop_bit 8 (c_g c))) (ucast (drop_bit 8 (c_b c))) 255"
    using assms(3) by simp
  have "ia_iter ?w ?h ?pix 1 ! p = map (pn_pixel input ?n) [0 ..< ?w * ?h] ! p"
    unfolding p1 p2 by (simp add: rgbaModel_def)
  with out1 out2 p2 show ?thesis by blast
qed

text \<open>The pixels of \<open>dot3\<close> by index.\<close>

lemma dot3_px:
  "in_px dot3 i = (if i mod 3 = 1 \<and> i div 3 = 1 then Color16 0 0 0 0
                   else Color16 0x1111 0x8080 0xffff 0xffff)"
  by (simp add: in_px_def dot3_def)

lemma centre_3: "i mod 3 = Suc 0 \<and> i div 3 = Suc 0 \<longleftrightarrow> i = (4::nat)"
proof
  assume "i mod 3 = Suc 0 \<and> i div 3 = Suc 0"
  then have "i div 3 * 3 + i mod 3 = 4" by simp
  then show "i = 4" by (simp only: div_mult_mod_eq)
qed simp

text \<open>The theorem at \<open>dot3\<close> with two workers: the centre, pixel 4, gets the colour
  \<open>(0x11, 0x80, 0xff, 255)\<close> from both algorithms.\<close>

theorem isolated_same_fill_example:
  "(0::nat) < 2 \<and> (2::nat) \<le> Suc (Dy dot3) \<and> (4::nat) < Dx dot3 * Dy dot3 \<and>
   (2::nat) \<le> Dx dot3 * Dy dot3 \<and> c_a (in_px dot3 4) < 0xff00 \<and>
   opaque_in dot3 3 \<and> in_px dot3 3 = Color16 0x1111 0x8080 0xffff 0xffff \<and>
   map_option (\<lambda>out. out ! 4) (process_gimp_alg dot3) = Some (RGBA 0x11 0x80 0xff 255) \<and>
   map_option (\<lambda>out. out ! 4) (process_paint_net_alg 2 dot3) = Some (RGBA 0x11 0x80 0xff 255)"
proof -
  have d: "Dx dot3 = 3" "Dy dot3 = 3" by (simp_all add: dot3_def)
  have h5: "c_a (in_px dot3 4) < 0xff00" by (simp add: dot3_px)
  have h6: "\<forall>i < Dx dot3 * Dy dot3. i \<noteq> 4 \<longrightarrow> opaque_in dot3 i"
    by (simp add: opaque_in_def dot3_px centre_3)
  have h7: "\<forall>j < Dx dot3 * Dy dot3. j \<noteq> 4 \<and> near (Dx dot3) 1 4 j \<longrightarrow>
              in_px dot3 j = Color16 0x1111 0x8080 0xffff 0xffff"
    by (simp add: dot3_px centre_3)
  from isolated_same_fill[of 2 dot3 4 "Color16 0x1111 0x8080 0xffff 0xffff", OF _ _ _ _ h5 h6 h7]
  obtain out1 out2 where "process_gimp_alg dot3 = Some out1"
    "process_paint_net_alg 2 dot3 = Some out2" "out1 ! 4 = out2 ! 4"
    "out2 ! 4 = RGBA 0x11 0x80 0xff 255"
    by (auto simp: d)
  then have "map_option (\<lambda>out. out ! 4) (process_gimp_alg dot3) = Some (RGBA 0x11 0x80 0xff 255)"
    "map_option (\<lambda>out. out ! 4) (process_paint_net_alg 2 dot3) = Some (RGBA 0x11 0x80 0xff 255)"
    by simp_all
  moreover have "opaque_in dot3 3" "in_px dot3 3 = Color16 0x1111 0x8080 0xffff 0xffff"
    by (simp_all add: opaque_in_def dot3_px)
  ultimately show ?thesis using h5 by (simp add: d)
qed

text \<open>With five workers the jump flood panics on the same raster (the row ranges of the
  workers are not clamped to the height), while \<open>process_gimp_alg\<close> returns.\<close>

lemma dot3_five_workers:
  "map_option (\<lambda>out. out ! 4) (process_gimp_alg dot3) = Some (RGBA 0x11 0x80 0xff 255) \<and>
   process_paint_net_alg 5 dot3 = None"
  by code_simp

text \<open>
  Claim C9 asks that the two algorithms give the same fill colour to a single transparent
  pixel whose opaque neighbours all have one colour.  In \<open>dim3\<close> the centre is not opaque
  (alpha \<open>0xff80\<close>) and the eight pixels around it are opaque red.
  \<open>process_paint_net_alg\<close> tests the 16-bit alpha and fills the centre with red;
  \<open>process_gimp_alg\<close> tests the alpha of its 8-bit copy, which is 255, never fills the
  centre and returns its own colour, green.
\<close>

theorem C9_near_opaque_centre:
  "\<not> opaque_in dim3 4 \<and> opaque_in dim3 3 \<and>
   map_option (\<lambda>out. out ! 4) (process_gimp_alg dim3) = Some (RGBA 0 0xff 0 255) \<and>
   map_option (\<lambda>out. out ! 4) (process_paint_net_alg 1 dim3) = Some (RGBA 0xff 0 0 255)"
  by code_simp

section \<open>The averaging loop on a raster without opaque pixels\<close>

lemma clear_start: "ia_start clear_pixel = clear_state 0"
  unfolding clear_pixel_def clear_state_def by code_simp

lemma clear_pass: "ia_pass 1 1 (clear_state p) = clear_state (p + 1)"
  by (simp add: clear_state_def ia_pass_def ia_pixel_def ia_gather_def neighbours4_def
      ia_neighbour_def)

lemma clear_loop:
  assumes "ia_loop w h st = Some y"
  shows "\<not> (w = 1 \<and> h = 1 \<and> (\<exists>p. st = clear_state p))"
proof (rule ia_loop.raw_induct
    [where P = "\<lambda>w h st y. \<not> (w = 1 \<and> h = 1 \<and> (\<exists>p. st = clear_state p))", OF _ assms])
  fix f :: "nat \<Rightarrow> nat \<Rightarrow> ia_state \<Rightarrow> ia_state option" and w h st y
  assume IH: "\<And>w h st y. f w h st = Some y \<Longrightarrow> \<not> (w = 1 \<and> h = 1 \<and> (\<exists>p. st = clear_state p))"
    and eq: "(if 0 < st_remaining st then f w h (ia_pass w h st) else Some st) = Some y"
  show "\<not> (w = 1 \<and> h = 1 \<and> (\<exists>p. st = clear_state p))"
  proof
    assume a: "w = 1 \<and> h = 1 \<and> (\<exists>p. st = clear_state p)"
    then obtain p where st: "st = clear_state p" by blast
    have "0 < st_remaining (clear_state p)"
      by (simp add: clear_state_def)
    with a st eq have "f 1 1 (ia_pass 1 1 (clear_state p)) = Some y"
      by (simp only: if_True)
    then have "f 1 1 (clear_state (p + 1)) = Some y"
      by (simp only: clear_pass)
    from IH[OF this] show False by blast
  qed
qed

text \<open>
  Claim C1 asks that both algorithms return on every raster without an opaque pixel.  The
  averaging algorithm does not: on the raster of one transparent pixel no neighbour is ever
  opaque, \<^verbatim>\<open>remaining\<close> stays 1 and the loop \<^verbatim>\<open>for remaining > 0\<close> has no other exit.
  The call never returns.
\<close>

theorem C1_gimp_never_returns: "process_gimp_alg clear_pixel = None"
proof (cases "gimp_run clear_pixel")
  case None
  then show ?thesis by (simp add: process_gimp_alg_def)
next
  case (Some y)
  then have "ia_loop 1 1 (ia_start clear_pixel) = Some y"
    by (simp add: gimp_run_def clear_pixel_def)
  from clear_loop[OF this] show ?thesis unfolding clear_start by blast
qed

section \<open>The row ranges of the workers\<close>

text \<open>
  Claim C4 asks that the row ranges of the workers lie within \<open>[0, height)\<close> and that every
  access of \<^verbatim>\<open>processJumpFlood\<close> is in bounds.  With 4 workers and a raster of height 1
  the chunk size is raised from 0 to 1, worker 1 gets the rows \<open>[1, 2)\<close>, and its first read
  \<^verbatim>\<open>distancesCopy[idx]\<close> is outside the slice: the program panics.
\<close>

theorem C4_rows_out_of_bounds:
  "chunk 1 4 1 = (1, 2) \<and> jumpFlood 4 2 1 [True, False] = None"
  by code_simp

text \<open>
  Claim C6 asks that 1 worker and \<open>N\<close> workers give the same result.  On the raster above 1
  worker returns the grid and 4 workers panic.
\<close>

theorem C6_workers_differ:
  "jumpFlood 1 2 1 [True, False] = Some [Point 0 0, Point 0 0] \<and>
   jumpFlood 4 2 1 [True, False] = None"
  by code_simp

section \<open>Opaque pixels\<close>

text \<open>
  Claim C7 asks that both algorithms leave the colour of every opaque pixel as it is.  The
  jump-flood algorithm rewrites an opaque pixel with \<^verbatim>\<open>uint8(r)\<close>, the low byte of the
  16-bit channel, where the conversion into the 8-bit raster (and \<^verbatim>\<open>uint8(r >> 8)\<close> in the
  last loop of the same function) takes the high byte.  On an opaque pixel of red \<open>0x1234\<close>
  it returns red \<open>0x34\<close>; the averaging algorithm returns \<open>0x12\<close>.
\<close>

theorem C7_low_byte:
  "process_paint_net_alg 1 deep_pixel = Some [RGBA 0x34 0 0 255] \<and>
   process_gimp_alg deep_pixel = Some [RGBA 0x12 0 0 255]"
  unfolding deep_pixel_def by code_simp

end
